theory Spec2Isabelle
  imports Main "HOL-Library.AList" "HOL-Library.Word" "HOL-Library.Char_ord"
    "HOL-Library.List_Lexorder" "HOL-Library.Product_Lexorder"
begin

section \<open>Store contract (store/store.go)\<close>

text \<open>
  The errors of package \<open>store\<close>. \<open>ErrOther\<close> stands for every other error value
  that can travel through the store: the error of a validation function, of a
  transform passed to \<open>SetFn\<close>, of the codec, or of \<open>database/sql\<close>.
\<close>

datatype error = ErrClosed | ErrKeyNotFound | ErrKindRequired | ErrOther string

text \<open>
  Run-time panics of Go that the code of the two engines can raise. A panic is not a
  returned error: it ends the call (and the program), so every operation that sends on
  or closes a channel returns \<open>fault + result\<close>. \<open>DanglingAddress\<close> is not a Go
  panic: it is the answer of the model for a channel address outside the heap, which no
  Go pointer can be, so that no statement rests on an unspecified list read.
\<close>

datatype fault =
  SendOnClosedChannel | CloseOfClosedChannel | NilMapAssignment | NilFuncCall | DanglingAddress

text \<open>\<open>type EventType string\<close> with its three constants.\<close>

type_synonym EventType = string

abbreviation EventTypeCreate :: EventType where "EventTypeCreate \<equiv> ''create''"
abbreviation EventTypeUpdate :: EventType where "EventTypeUpdate \<equiv> ''update''"
abbreviation EventTypeDelete :: EventType where "EventTypeDelete \<equiv> ''delete''"

record 'v Event =
  Kind :: string
  Name :: string
  EventType :: EventType
  Object :: 'v

text \<open>
  \<open>WatchCfg\<close>: \<open>EventTypes\<close> is a Go map used as a set, \<open>None\<close> is the nil map.
\<close>

record WatchCfg =
  Initial :: bool
  EventTypes :: "EventType set option"
  BufferSize :: int

definition DefaultWatchBufferSize :: int where
  "DefaultWatchBufferSize = 128"

definition emptyCfg :: WatchCfg where
  "emptyCfg = \<lparr>Initial = False, EventTypes = None, BufferSize = 0\<rparr>"

definition WithInitialReplay :: "WatchCfg \<Rightarrow> WatchCfg" where
  "WithInitialReplay w = w\<lparr>Initial := True\<rparr>"

definition WithEventTypes :: "EventType list \<Rightarrow> WatchCfg \<Rightarrow> WatchCfg" where
  "WithEventTypes eventTypes w =
     w\<lparr>EventTypes := Some ((case EventTypes w of None \<Rightarrow> {} | Some S \<Rightarrow> S) \<union> set eventTypes)\<rparr>"

definition WithBufferSize :: "int \<Rightarrow> WatchCfg \<Rightarrow> WatchCfg" where
  "WithBufferSize n w = w\<lparr>BufferSize := n\<rparr>"

section \<open>Buffered channels and the channel heap\<close>

text \<open>
  A delivery channel \<open>chan *store.Event[T]\<close>: its buffer, its capacity and whether it
  has been closed. Channels are shared between the store, the publisher's snapshot of
  watchers and the consumer, so they live in a heap (a list, the address is the index)
  and watchers hold addresses.
\<close>

record 'v chan =
  buf :: "'v Event list"
  cap :: nat
  chan_closed :: bool

definition make_chan :: "nat \<Rightarrow> 'v chan" where
  "make_chan n = \<lparr>buf = [], cap = n, chan_closed = False\<rparr>"

text \<open>
  \<open>select { case ch <- ev: default: }\<close> with no receiver waiting: a send on a closed
  channel panics, a full buffer takes the default branch and drops the event.
\<close>

definition chan_send :: "'v chan \<Rightarrow> 'v Event \<Rightarrow> fault + 'v chan" where
  "chan_send c ev =
     (if chan_closed c then Inl SendOnClosedChannel
      else if length (buf c) < cap c then Inr (c\<lparr>buf := buf c @ [ev]\<rparr>)
      else Inr c)"

text \<open>\<open>close(ch)\<close>: closing a closed channel panics.\<close>

definition chan_close :: "'v chan \<Rightarrow> fault + 'v chan" where
  "chan_close c = (if chan_closed c then Inl CloseOfClosedChannel else Inr (c\<lparr>chan_closed := True\<rparr>))"

text \<open>
  A receive \<open>ev, ok := <-ch\<close> by the consumer: buffered events are still delivered
  after the close, then the channel reports the end of the stream.
\<close>

datatype 'v recv = Received "'v Event" | EndOfStream | WouldBlock

definition chan_recv :: "'v chan \<Rightarrow> 'v recv \<times> 'v chan" where
  "chan_recv c =
     (case buf c of
        ev # rest \<Rightarrow> (Received ev, c\<lparr>buf := rest\<rparr>)
      | [] \<Rightarrow> (if chan_closed c then EndOfStream else WouldBlock, c))"

definition heap_send :: "'v chan list \<Rightarrow> nat \<Rightarrow> 'v Event \<Rightarrow> fault + 'v chan list" where
  "heap_send h a ev =
     (if a < length h
      then (case chan_send (h ! a) ev of Inl f \<Rightarrow> Inl f | Inr c \<Rightarrow> Inr (h[a := c]))
      else Inl DanglingAddress)"

definition heap_close :: "'v chan list \<Rightarrow> nat \<Rightarrow> fault + 'v chan list" where
  "heap_close h a =
     (if a < length h
      then (case chan_close (h ! a) of Inl f \<Rightarrow> Inl f | Inr c \<Rightarrow> Inr (h[a := c]))
      else Inl DanglingAddress)"

text \<open>
  \<open>type watcher struct { ch; eventTypes }\<close>, the same in both engines; \<open>ch\<close> is the
  address of the delivery channel, \<open>eventTypes = None\<close> is the nil filter.
\<close>

record watcher =
  ch :: nat
  eventTypes :: "EventType set option"

text \<open>
  The filter test that every fan-out loop makes:
  \<open>if w.eventTypes != nil { if _, ok := w.eventTypes[t]; !ok { continue } }\<close>.
\<close>

definition accepts :: "watcher \<Rightarrow> EventType \<Rightarrow> bool" where
  "accepts w t = (case eventTypes w of None \<Rightarrow> True | Some S \<Rightarrow> t \<in> S)"

text \<open>
  The fan-out loop of one event over a snapshot of watchers. It is written out in
  \<open>memStore.Set\<close>, \<open>Delete\<close> and \<open>SetFn\<close>, and it is the body of \<open>sqLiteStore.publish\<close>.
\<close>

fun fanout :: "'v chan list \<Rightarrow> watcher list \<Rightarrow> 'v Event \<Rightarrow> fault + 'v chan list" where
  "fanout h [] ev = Inr h"
| "fanout h (w # ws) ev =
     (if accepts w (EventType ev)
      then (case heap_send h (ch w) ev of Inl f \<Rightarrow> Inl f | Inr h' \<Rightarrow> fanout h' ws ev)
      else fanout h ws ev)"

text \<open>A loop of non-blocking sends of several events to one channel.\<close>

fun send_all :: "'v chan list \<Rightarrow> nat \<Rightarrow> 'v Event list \<Rightarrow> fault + 'v chan list" where
  "send_all h a [] = Inr h"
| "send_all h a (ev # evs) =
     (case heap_send h a ev of Inl f \<Rightarrow> Inl f | Inr h' \<Rightarrow> send_all h' a evs)"

section \<open>The in-memory engine (package gomap)\<close>

text \<open>
  Go maps are association lists with distinct keys; a \<open>range\<close> loop visits the list in
  order, one of the orders the Go run time may choose. The watcher registry is keyed by
  the decimal rendering of a \<open>uint64\<close> counter; the model keeps the counter value as
  the key (\<open>strconv.FormatUint\<close> is injective). \<open>chans\<close> and \<open>dones\<close> are the heaps of
  the delivery channels and of the \<open>doneCh\<close> channels made by \<open>Watch\<close> (for a
  \<open>chan struct{}\<close> that is only ever closed, the closed flag is the whole state).
\<close>

record 'v memStore =
  kinds :: "(string \<times> (string \<times> 'v) list) list"
  validationFns :: "string \<rightharpoonup> ('v \<Rightarrow> error option)"
  watchers :: "(string \<times> (64 word \<times> watcher) list) list"
  compareFn :: "'v \<Rightarrow> 'v \<Rightarrow> bool"
  closed :: bool
  watcherID :: "64 word"
  chans :: "'v chan list"
  dones :: "bool list"

record 'v StoreOptions =
  CompareFn :: "('v \<Rightarrow> 'v \<Rightarrow> bool) option"
  ValidateFns :: "(string \<rightharpoonup> ('v \<Rightarrow> error option)) option"

text \<open>
  \<open>DefaultCompareFunc\<close> is \<open>reflect.DeepEqual\<close>, a function of the Go run time. The
  relation it computes on the value type is the parameter \<open>deepEqual\<close>, of which nothing
  is assumed: it is equality on strings and numbers other than NaN, and it is not
  reflexive on every type (a NaN, a non-nil func, and a value that contains one, are not
  deeply equal to themselves). A store is made for one value type, so \<open>NewMemStore\<close>
  takes the parameter too.
\<close>

definition DefaultCompareFunc :: "('v \<Rightarrow> 'v \<Rightarrow> bool) \<Rightarrow> 'v \<Rightarrow> 'v \<Rightarrow> bool" where
  "DefaultCompareFunc deepEqual prev new = deepEqual prev new"

definition NewMemStore :: "('v \<Rightarrow> 'v \<Rightarrow> bool) \<Rightarrow> 'v StoreOptions \<Rightarrow> 'v memStore" where
  "NewMemStore deepEqual opt =
     \<lparr>kinds = [],
      validationFns = (case ValidateFns opt of None \<Rightarrow> Map.empty | Some fns \<Rightarrow> fns),
      watchers = [],
      compareFn = (case CompareFn opt of None \<Rightarrow> DefaultCompareFunc deepEqual | Some f \<Rightarrow> f),
      closed = False, watcherID = 0, chans = [], dones = []\<rparr>"

definition ensureKind :: "'v memStore \<Rightarrow> string \<Rightarrow> 'v memStore" where
  "ensureKind s kind =
     (let s1 = (if map_of (kinds s) kind = None then s\<lparr>kinds := kinds s @ [(kind, [])]\<rparr> else s)
      in if map_of (watchers s1) kind = None
         then s1\<lparr>watchers := watchers s1 @ [(kind, [])]\<rparr> else s1)"

text \<open>\<open>s.kinds[kind]\<close> and \<open>s.watchers[kind]\<close>: a missing kind reads as the nil (empty) map.\<close>

definition kind_entries :: "'v memStore \<Rightarrow> string \<Rightarrow> (string \<times> 'v) list" where
  "kind_entries s kind = (case map_of (kinds s) kind of None \<Rightarrow> [] | Some m \<Rightarrow> m)"

definition kind_watchers :: "'v memStore \<Rightarrow> string \<Rightarrow> (64 word \<times> watcher) list" where
  "kind_watchers s kind = (case map_of (watchers s) kind of None \<Rightarrow> [] | Some m \<Rightarrow> m)"

text \<open>
  The parameter \<open>zero\<close> of the operations is Go's zero value of the type \<open>T\<close>
  (\<open>var zero T\<close>, and what a map read of a missing key returns).
\<close>

definition memStore_Get :: "'v \<Rightarrow> 'v memStore \<Rightarrow> string \<Rightarrow> string \<Rightarrow> 'v \<times> bool \<times> error option" where
  "memStore_Get zero s kind key =
     (if closed s then (zero, False, Some ErrClosed)
      else (case map_of (kind_entries s kind) key of
              None \<Rightarrow> (zero, False, None)
            | Some v \<Rightarrow> (v, True, None)))"

definition memStore_Set ::
  "'v \<Rightarrow> 'v memStore \<Rightarrow> string \<Rightarrow> string \<Rightarrow> 'v \<Rightarrow> fault + ((bool \<times> error option) \<times> 'v memStore)" where
  "memStore_Set zero s kind key value =
     (if closed s then Inr ((False, Some ErrClosed), s)
      else
        let s1 = ensureKind s kind in
        case (case validationFns s1 kind of None \<Rightarrow> None | Some fn \<Rightarrow> fn value) of
          Some err \<Rightarrow> Inr ((False, Some err), s1)
        | None \<Rightarrow>
            let m = kind_entries s1 kind;
                prev = (case map_of m key of None \<Rightarrow> zero | Some p \<Rightarrow> p);
                existed = (map_of m key \<noteq> None);
                s2 = s1\<lparr>kinds := AList.update kind (AList.update key value m) (kinds s1)\<rparr>
            in if compareFn s2 prev value then Inr ((False, None), s2)
               else
                 let wchs = map snd (kind_watchers s2 kind);
                     evType = (if \<not> existed then EventTypeCreate else EventTypeUpdate);
                     ev = \<lparr>Kind = kind, Name = key, EventType = evType, Object = value\<rparr>
                 in case fanout (chans s2) wchs ev of
                      Inl f \<Rightarrow> Inl f
                    | Inr h \<Rightarrow> Inr ((\<not> existed, None), s2\<lparr>chans := h\<rparr>))"

definition memStore_SetFn ::
  "'v memStore \<Rightarrow> string \<Rightarrow> string \<Rightarrow> ('v \<Rightarrow> error + 'v) \<Rightarrow> fault + ((bool \<times> error option) \<times> 'v memStore)" where
  "memStore_SetFn s kind key fn =
     (if closed s then Inr ((False, Some ErrClosed), s)
      else
        let s1 = ensureKind s kind; m = kind_entries s1 kind in
        case map_of m key of
          None \<Rightarrow> Inr ((False, Some ErrKeyNotFound), s1)
        | Some prev \<Rightarrow>
            (case fn prev of
               Inl err \<Rightarrow> Inr ((False, Some err), s1)
             | Inr value \<Rightarrow>
                 let s2 = s1\<lparr>kinds := AList.update kind (AList.update key value m) (kinds s1)\<rparr>;
                     wchs = map snd (kind_watchers s2 kind);
                     ev = \<lparr>Kind = kind, Name = key, EventType = EventTypeUpdate, Object = value\<rparr>
                 in case fanout (chans s2) wchs ev of
                      Inl f \<Rightarrow> Inl f
                    | Inr h \<Rightarrow> Inr ((False, None), s2\<lparr>chans := h\<rparr>)))"

definition memStore_List ::
  "'v memStore \<Rightarrow> string \<Rightarrow> (string \<Rightarrow> 'v \<Rightarrow> bool) option list \<Rightarrow> error + (string \<times> 'v) list" where
  "memStore_List s kind filters =
     (if closed s then Inl ErrClosed
      else Inr (filter (\<lambda>(k, v). \<forall>f \<in> set filters. case f of None \<Rightarrow> True | Some p \<Rightarrow> p k v)
                  (kind_entries s kind)))"

definition memStore_Keys :: "'v memStore \<Rightarrow> string \<Rightarrow> error + string list" where
  "memStore_Keys s kind = (if closed s then Inl ErrClosed else Inr (map fst (kind_entries s kind)))"

definition memStore_Values :: "'v memStore \<Rightarrow> string \<Rightarrow> error + (string \<times> 'v) list" where
  "memStore_Values s kind = (if closed s then Inl ErrClosed else Inr (kind_entries s kind))"

definition memStore_Count :: "'v memStore \<Rightarrow> string \<Rightarrow> error + int" where
  "memStore_Count s kind = (if closed s then Inl ErrClosed else Inr (int (length (kind_entries s kind))))"

definition memStore_GetAll :: "'v memStore \<Rightarrow> error + (string \<times> (string \<times> 'v) list) list" where
  "memStore_GetAll s = (if closed s then Inl ErrClosed else Inr (kinds s))"

text \<open>
  \<open>Dump\<close> has no closed check and no error result. \<open>fmt\<close> is the rendering \<open>%+v\<close>
  of a value.
\<close>

definition memStore_Dump :: "('v \<Rightarrow> string) \<Rightarrow> 'v memStore \<Rightarrow> string" where
  "memStore_Dump fmt s =
     concat (map (\<lambda>(kind, m).
        kind @ '':'' @ [CHR 0x0A] @
        concat (map (\<lambda>(k, v). ''  '' @ k @ '': '' @ fmt v @ [CHR 0x0A]) m)) (kinds s))"

text \<open>\<open>SetAll\<close>: the validation loop, the classification loop and the notification loop.\<close>

fun validate_values :: "('v \<Rightarrow> error option) \<Rightarrow> (string \<times> 'v) list \<Rightarrow> error option" where
  "validate_values fn [] = None"
| "validate_values fn ((k, v) # vs) =
     (case fn v of Some err \<Rightarrow> Some err | None \<Rightarrow> validate_values fn vs)"

fun setAll_write ::
  "(string \<times> 'v) list \<Rightarrow> (string \<times> 'v) list \<Rightarrow> (string \<times> 'v) list \<Rightarrow> (string \<times> 'v) list \<Rightarrow>
   (string \<times> 'v) list \<times> (string \<times> 'v) list \<times> (string \<times> 'v) list" where
  "setAll_write m created updated [] = (m, created, updated)"
| "setAll_write m created updated ((k, v) # vs) =
     (if map_of m k \<noteq> None
      then setAll_write (AList.update k v m) created (AList.update k v updated) vs
      else setAll_write (AList.update k v m) (AList.update k v created) updated vs)"

definition mkEvent :: "string \<Rightarrow> EventType \<Rightarrow> string \<times> 'v \<Rightarrow> 'v Event" where
  "mkEvent kind t kv = \<lparr>Kind = kind, Name = fst kv, EventType = t, Object = snd kv\<rparr>"

fun setAll_notify ::
  "'v chan list \<Rightarrow> watcher list \<Rightarrow> string \<Rightarrow> (string \<times> 'v) list \<Rightarrow> (string \<times> 'v) list \<Rightarrow> fault + 'v chan list" where
  "setAll_notify h [] kind created updated = Inr h"
| "setAll_notify h (wch # wchs) kind created updated =
     (let wantsCreate = accepts wch EventTypeCreate;
          wantsUpdate = accepts wch EventTypeUpdate
      in case (if wantsCreate then send_all h (ch wch) (map (mkEvent kind EventTypeCreate) created) else Inr h) of
           Inl f \<Rightarrow> Inl f
         | Inr h1 \<Rightarrow>
             (case (if wantsUpdate then send_all h1 (ch wch) (map (mkEvent kind EventTypeUpdate) updated) else Inr h1) of
                Inl f \<Rightarrow> Inl f
              | Inr h2 \<Rightarrow> setAll_notify h2 wchs kind created updated))"

definition memStore_SetAll ::
  "'v memStore \<Rightarrow> string \<Rightarrow> (string \<times> 'v) list \<Rightarrow> fault + (error option \<times> 'v memStore)" where
  "memStore_SetAll s kind values =
     (if closed s then Inr (Some ErrClosed, s)
      else
        let s1 = ensureKind s kind in
        case (case validationFns s1 kind of None \<Rightarrow> None | Some fn \<Rightarrow> validate_values fn values) of
          Some err \<Rightarrow> Inr (Some err, s1)
        | None \<Rightarrow>
            (case setAll_write (kind_entries s1 kind) [] [] values of
               (m, created, updated) \<Rightarrow>
                 let s2 = s1\<lparr>kinds := AList.update kind m (kinds s1)\<rparr>;
                     wchs = map snd (kind_watchers s2 kind)
                 in case setAll_notify (chans s2) wchs kind created updated of
                      Inl f \<Rightarrow> Inl f
                    | Inr h \<Rightarrow> Inr (None, s2\<lparr>chans := h\<rparr>)))"

definition memStore_Delete ::
  "'v \<Rightarrow> 'v memStore \<Rightarrow> string \<Rightarrow> string \<Rightarrow> fault + ((bool \<times> 'v \<times> error option) \<times> 'v memStore)" where
  "memStore_Delete zero s kind key =
     (if closed s then Inr ((False, zero, Some ErrClosed), s)
      else
        let s1 = ensureKind s kind; m = kind_entries s1 kind in
        case map_of m key of
          None \<Rightarrow> Inr ((False, zero, None), s1)
        | Some prev \<Rightarrow>
            let s2 = s1\<lparr>kinds := AList.update kind (AList.delete key m) (kinds s1)\<rparr>;
                wchs = map snd (kind_watchers s2 kind);
                ev = \<lparr>Kind = kind, Name = key, EventType = EventTypeDelete, Object = prev\<rparr>
            in case fanout (chans s2) wchs ev of
                 Inl f \<Rightarrow> Inl f
               | Inr h \<Rightarrow> Inr ((True, prev, None), s2\<lparr>chans := h\<rparr>))"

subsection \<open>Watch, cancel and Close\<close>

text \<open>
  What the closure \<open>cancel\<close> captures: the kind, the watcher id and \<open>doneCh\<close> (the
  captured \<open>wch\<close> is shadowed by the registry entry the closure finds).
\<close>

record mem_cancel =
  c_kind :: string
  c_id :: "64 word"
  c_doneCh :: nat

text \<open>
  The goroutine that \<open>Watch\<close> starts for the initial replay: the snapshot it ranges
  over, and the two channels of its \<open>select\<close>.
\<close>

record 'v mem_replay =
  r_kind :: string
  r_snap :: "(string \<times> 'v) list"
  r_ch :: nat
  r_doneCh :: nat

text \<open>
  Watch options are function values; \<open>None\<close> is a nil option, which the in-memory
  engine calls (a nil-function panic) and the durable engine skips.
\<close>

fun mem_apply_opts :: "WatchCfg \<Rightarrow> (WatchCfg \<Rightarrow> WatchCfg) option list \<Rightarrow> fault + WatchCfg" where
  "mem_apply_opts cfg [] = Inr cfg"
| "mem_apply_opts cfg (None # opts) = Inl NilFuncCall"
| "mem_apply_opts cfg (Some opt # opts) = mem_apply_opts (opt cfg) opts"

definition sendInitial :: "WatchCfg \<Rightarrow> bool" where
  "sendInitial cfg = (case EventTypes cfg of None \<Rightarrow> True | Some S \<Rightarrow> EventTypeCreate \<in> S)"

definition memStore_Watch ::
  "'v memStore \<Rightarrow> string \<Rightarrow> (WatchCfg \<Rightarrow> WatchCfg) option list \<Rightarrow>
   fault + ((error + (nat \<times> mem_cancel \<times> 'v mem_replay option)) \<times> 'v memStore)" where
  "memStore_Watch s kind opts =
     (if kind = [] then Inr (Inl ErrKindRequired, s)
      else case mem_apply_opts emptyCfg opts of
        Inl f \<Rightarrow> Inl f
      | Inr cfg \<Rightarrow>
          if closed s then Inr (Inl ErrClosed, s)
          else
            let s1 = ensureKind s kind;
                bufSize = (if BufferSize cfg \<le> 0 then DefaultWatchBufferSize else BufferSize cfg);
                idn = watcherID s1 + 1;
                a = length (chans s1);
                wch = \<lparr>ch = a, eventTypes = EventTypes cfg\<rparr>;
                s2 = s1\<lparr>watcherID := idn,
                        chans := chans s1 @ [make_chan (nat bufSize)],
                        watchers := AList.update kind (AList.update idn wch (kind_watchers s1 kind)) (watchers s1)\<rparr>;
                snap = (if Initial cfg then kind_entries s2 kind else []);
                d = length (dones s2);
                s3 = s2\<lparr>dones := dones s2 @ [False]\<rparr>;
                task = (if Initial cfg \<and> length snap > 0 \<and> sendInitial cfg
                        then Some \<lparr>r_kind = kind, r_snap = snap, r_ch = a, r_doneCh = d\<rparr> else None)
            in Inr (Inr (a, \<lparr>c_kind = kind, c_id = idn, c_doneCh = d\<rparr>, task), s3))"

definition done_close :: "bool list \<Rightarrow> nat \<Rightarrow> fault + bool list" where
  "done_close ds d =
     (if d < length ds then (if ds ! d then Inl CloseOfClosedChannel else Inr (ds[d := True]))
      else Inl DanglingAddress)"

definition memStore_cancel :: "mem_cancel \<Rightarrow> 'v memStore \<Rightarrow> fault + 'v memStore" where
  "memStore_cancel c s =
     (case map_of (watchers s) (c_kind c) of
        None \<Rightarrow> Inr s
      | Some w \<Rightarrow>
          (case map_of w (c_id c) of
             None \<Rightarrow> Inr s
           | Some wch \<Rightarrow>
               let s1 = s\<lparr>watchers := AList.update (c_kind c) (AList.delete (c_id c) w) (watchers s)\<rparr>
               in case done_close (dones s1) (c_doneCh c) of
                    Inl f \<Rightarrow> Inl f
                  | Inr ds \<Rightarrow>
                      (case heap_close (chans s1) (ch wch) of
                         Inl f \<Rightarrow> Inl f
                       | Inr h \<Rightarrow> Inr (s1\<lparr>dones := ds, chans := h\<rparr>))))"

fun close_all :: "'v chan list \<Rightarrow> nat list \<Rightarrow> fault + 'v chan list" where
  "close_all h [] = Inr h"
| "close_all h (a # as) = (case heap_close h a of Inl f \<Rightarrow> Inl f | Inr h' \<Rightarrow> close_all h' as)"

text \<open>
  \<open>Close\<close> always returns the nil error; the loop deletes every watcher from every
  kind's registry (the kinds stay, with empty registries) and closes its channel.
\<close>

definition memStore_Close :: "'v memStore \<Rightarrow> fault + 'v memStore" where
  "memStore_Close s =
     (if closed s then Inr s
      else case close_all (chans s) (concat (map (\<lambda>(kind, m). map (\<lambda>(idn, wch). ch wch) m) (watchers s))) of
        Inl f \<Rightarrow> Inl f
      | Inr h \<Rightarrow> Inr (s\<lparr>closed := True, watchers := map (\<lambda>(kind, m). (kind, [])) (watchers s), chans := h\<rparr>))"

text \<open>
  A run of the replay goroutine until it ends or blocks, with no receiver on the
  channel. In \<open>select { case wch.ch <- ev: case <-doneCh: return }\<close> the send is ready
  when the buffer has room or the channel is closed (then it panics), the receive is
  ready when \<open>doneCh\<close> is closed. When both are ready Go chooses at random: \<open>pick\<close> is
  that choice (\<open>True\<close> takes the \<open>doneCh\<close> branch).
\<close>

datatype 'v replay_end = Finished | Cancelled | Blocked "(string \<times> 'v) list"

fun replay_loop ::
  "bool \<Rightarrow> bool \<Rightarrow> string \<Rightarrow> nat \<Rightarrow> 'v chan list \<Rightarrow> (string \<times> 'v) list \<Rightarrow> fault + ('v chan list \<times> 'v replay_end)" where
  "replay_loop pick done_closed kind a h [] = Inr (h, Finished)"
| "replay_loop pick done_closed kind a h (kv # m) =
     (if length h \<le> a then Inl DanglingAddress
      else
        let c = h ! a; send_ready = (chan_closed c \<or> length (buf c) < cap c) in
        if done_closed \<and> (\<not> send_ready \<or> pick) then Inr (h, Cancelled)
        else if \<not> send_ready then Inr (h, Blocked (kv # m))
        else (case chan_send c (mkEvent kind EventTypeCreate kv) of
                Inl f \<Rightarrow> Inl f
              | Inr c' \<Rightarrow> replay_loop pick done_closed kind a (h[a := c']) m))"

definition memStore_replay ::
  "bool \<Rightarrow> 'v memStore \<Rightarrow> 'v mem_replay \<Rightarrow> fault + ('v memStore \<times> 'v replay_end)" where
  "memStore_replay pick s t =
     (if length (dones s) \<le> r_doneCh t then Inl DanglingAddress
      else case replay_loop pick (dones s ! r_doneCh t) (r_kind t) (r_ch t) (chans s) (r_snap t) of
        Inl f \<Rightarrow> Inl f
      | Inr (h, e) \<Rightarrow> Inr (s\<lparr>chans := h\<rparr>, e))"

section \<open>The durable engine (package sqlite)\<close>

text \<open>
  The codec is the caller's: two functions that may fail. Serialized values are byte
  strings (an Isabelle \<open>char\<close> is a byte).
\<close>

type_synonym bytes = string

record 'v Codec =
  Marshal :: "'v \<Rightarrow> error + bytes"
  Unmarshal :: "bytes \<Rightarrow> error + 'v"

text \<open>
  A row of the table \<open>zestor_kv\<close>, without its primary key \<open>(kind, key)\<close>. The column
  \<open>version\<close> holds a number, written as an \<open>int\<close>: an SQLite INTEGER is a signed 64-bit
  number, the values of \<open>int64\<close>, and a value outside that range stands for the REAL
  that the column then holds.
\<close>

record row =
  col_value :: bytes
  col_version :: int
  col_updated_at :: string

type_synonym table = "((string \<times> string) \<times> row) list"

text \<open>
  The store: the database (its table and whether \<open>db.Close\<close> has run), the codec, the
  registry \<open>subs\<close> (\<open>None\<close> is the nil map that \<open>Close\<close> leaves; a watcher pointer is
  its value, which holds the address of its own fresh channel), the closed flag and the
  heap of delivery channels. A transaction is a computation on a copy of the table that
  is installed at commit and dropped at rollback; the only failures of the database
  that are modelled are those of a closed database.
\<close>

record 'v sqLiteStore =
  zestor_kv :: table
  db_closed :: bool
  codec :: "'v Codec"
  subs :: "(string \<times> watcher list) list option"
  sq_closed :: bool
  sq_chans :: "'v chan list"

definition errDBClosed :: error where
  "errDBClosed = ErrOther ''sql: database is closed''"

definition New :: "'v Codec \<Rightarrow> table \<Rightarrow> 'v sqLiteStore" where
  "New c t = \<lparr>zestor_kv = t, db_closed = False, codec = c, subs = Some [], sq_closed = False, sq_chans = []\<rparr>"

definition kind_rows :: "table \<Rightarrow> string \<Rightarrow> (string \<times> row) list" where
  "kind_rows t kind = map (\<lambda>((kd, k), r). (k, r)) (filter (\<lambda>((kd, k), r). kd = kind) t)"

definition kind_subs :: "'v sqLiteStore \<Rightarrow> string \<Rightarrow> watcher list" where
  "kind_subs s kind =
     (case subs s of None \<Rightarrow> [] | Some m \<Rightarrow> (case map_of m kind of None \<Rightarrow> [] | Some ws \<Rightarrow> ws))"

definition publish :: "'v sqLiteStore \<Rightarrow> string \<Rightarrow> 'v Event \<Rightarrow> fault + 'v sqLiteStore" where
  "publish s kind ev =
     (case fanout (sq_chans s) (kind_subs s kind) ev of
        Inl f \<Rightarrow> Inl f
      | Inr h \<Rightarrow> Inr (s\<lparr>sq_chans := h\<rparr>))"

fun publish_all :: "'v sqLiteStore \<Rightarrow> string \<Rightarrow> 'v Event list \<Rightarrow> fault + 'v sqLiteStore" where
  "publish_all s kind [] = Inr s"
| "publish_all s kind (ev # evs) =
     (case publish s kind ev of Inl f \<Rightarrow> Inl f | Inr s' \<Rightarrow> publish_all s' kind evs)"

definition sqLiteStore_Get :: "'v \<Rightarrow> 'v sqLiteStore \<Rightarrow> string \<Rightarrow> string \<Rightarrow> 'v \<times> bool \<times> error option" where
  "sqLiteStore_Get zero s kind key =
     (if sq_closed s then (zero, False, Some ErrClosed)
      else if db_closed s then (zero, False, Some errDBClosed)
      else (case map_of (zestor_kv s) (kind, key) of
              None \<Rightarrow> (zero, False, None)
            | Some r \<Rightarrow>
                (case Unmarshal (codec s) (col_value r) of
                   Inl err \<Rightarrow> (zero, False, Some err)
                 | Inr v \<Rightarrow> (v, True, None))))"

text \<open>The scan loops of \<open>List\<close>, \<open>Values\<close> and \<open>GetAll\<close>: the first row that does not decode ends the call.\<close>

fun decode_rows :: "'v Codec \<Rightarrow> ('k \<times> row) list \<Rightarrow> error + ('k \<times> 'v) list" where
  "decode_rows c [] = Inr []"
| "decode_rows c ((k, r) # rs) =
     (case Unmarshal c (col_value r) of
        Inl err \<Rightarrow> Inl err
      | Inr v \<Rightarrow> (case decode_rows c rs of Inl err \<Rightarrow> Inl err | Inr kvs \<Rightarrow> Inr ((k, v) # kvs)))"

definition sqLiteStore_List ::
  "'v sqLiteStore \<Rightarrow> string \<Rightarrow> (string \<Rightarrow> 'v \<Rightarrow> bool) option list \<Rightarrow> error + (string \<times> 'v) list" where
  "sqLiteStore_List s kind filters =
     (if sq_closed s then Inl ErrClosed
      else if db_closed s then Inl errDBClosed
      else (case decode_rows (codec s) (kind_rows (zestor_kv s) kind) of
              Inl err \<Rightarrow> Inl err
            | Inr kvs \<Rightarrow>
                Inr (filter (\<lambda>(k, v). \<forall>f \<in> set filters. case f of None \<Rightarrow> True | Some p \<Rightarrow> p k v) kvs)))"

definition sqLiteStore_Count :: "'v sqLiteStore \<Rightarrow> string \<Rightarrow> error + int" where
  "sqLiteStore_Count s kind =
     (if sq_closed s then Inl ErrClosed
      else if db_closed s then Inl errDBClosed
      else Inr (int (length (kind_rows (zestor_kv s) kind))))"

definition sqLiteStore_Keys :: "'v sqLiteStore \<Rightarrow> string \<Rightarrow> error + string list" where
  "sqLiteStore_Keys s kind =
     (if sq_closed s then Inl ErrClosed
      else if db_closed s then Inl errDBClosed
      else Inr (map fst (kind_rows (zestor_kv s) kind)))"

definition sqLiteStore_Values :: "'v sqLiteStore \<Rightarrow> string \<Rightarrow> error + (string \<times> 'v) list" where
  "sqLiteStore_Values s kind =
     (if sq_closed s then Inl ErrClosed
      else if db_closed s then Inl errDBClosed
      else decode_rows (codec s) (kind_rows (zestor_kv s) kind))"

text \<open>\<open>ORDER BY kind, key\<close> under SQLite's binary collation.\<close>

definition order_by_kind_key :: "table \<Rightarrow> table" where
  "order_by_kind_key t = sort_key fst t"

fun group_kinds ::
  "(string \<times> (string \<times> 'v) list) list \<Rightarrow> ((string \<times> string) \<times> 'v) list \<Rightarrow> (string \<times> (string \<times> 'v) list) list" where
  "group_kinds out [] = out"
| "group_kinds out (((kind, key), v) # rs) =
     group_kinds
       (AList.update kind (AList.update key v (case map_of out kind of None \<Rightarrow> [] | Some m \<Rightarrow> m)) out) rs"

definition sqLiteStore_GetAll :: "'v sqLiteStore \<Rightarrow> error + (string \<times> (string \<times> 'v) list) list" where
  "sqLiteStore_GetAll s =
     (if sq_closed s then Inl ErrClosed
      else if db_closed s then Inl errDBClosed
      else (case decode_rows (codec s) (order_by_kind_key (zestor_kv s)) of
              Inl err \<Rightarrow> Inl err
            | Inr kvs \<Rightarrow> Inr (group_kinds [] kvs)))"

text \<open>\<open>%d\<close> of \<open>fmt\<close>.\<close>

function show_nat :: "nat \<Rightarrow> string" where
  "show_nat n = (if n < 10 then [char_of (48 + n)] else show_nat (n div 10) @ [char_of (48 + n mod 10)])"
  by pat_completeness auto
termination
  by (relation "measure id") auto

definition show_int :: "int \<Rightarrow> string" where
  "show_int i = (if i < 0 then ''-'' @ show_nat (nat (- i)) else show_nat (nat i))"

text \<open>
  \<open>Dump\<close> has no closed check and no error result: when the query fails it returns the
  text of the error.
\<close>

definition sqLiteStore_Dump :: "'v sqLiteStore \<Rightarrow> string" where
  "sqLiteStore_Dump s =
     (if db_closed s then ''sql: database is closed''
      else concat (map (\<lambda>((kind, key), r).
             kind @ ''/'' @ key @ '' v'' @ show_int (col_version r)
             @ '' ('' @ show_nat (length (col_value r)) @ ''B) '' @ col_updated_at r
             @ '' | value='' @ col_value r @ [CHR 0x0A])
           (order_by_kind_key (zestor_kv s))))"

text \<open>
  \<open>now\<close> is the reading of the clock that \<open>STRFTIME('%Y-%m-%dT%H:%M:%fZ','now')\<close>
  returns during the call.
\<close>

text \<open>
  A call that returns an error from inside its transaction leaves the table as it was:
  nothing has been committed. On some of these paths the source does not roll back
  either: the \<open>Unmarshal\<close> failure of \<open>SetFn\<close> and of \<open>Delete\<close>, and the \<open>Marshal\<close>
  failure inside the loop of \<open>SetAll\<close>, return an \<open>err\<close> declared in an inner scope,
  while the deferred \<open>rollbackIfNeeded\<close> reads the outer one, which is nil. The
  connection and the lock that such an open transaction keeps are not modelled.
\<close>

text \<open>
  \<open>version+1\<close> as SQLite computes it. On an INTEGER it is the sum; at the largest
  INTEGER the sum overflows into the REAL \<open>9223372036854775808.0\<close>, which the column
  keeps, and on a REAL of that size a further \<open>+1\<close> is lost in rounding: the version
  stops moving at \<open>2^63\<close>.
\<close>

definition int64 :: "int \<Rightarrow> bool" where
  "int64 v = (- (2 ^ 63) \<le> v \<and> v < 2 ^ 63)"

definition sql_incr :: "int \<Rightarrow> int" where
  "sql_incr v = (if int64 v then v + 1 else v)"

definition insert_row :: "string \<Rightarrow> string \<times> string \<Rightarrow> bytes \<Rightarrow> table \<Rightarrow> table" where
  "insert_row now pk enc t = t @ [(pk, \<lparr>col_value = enc, col_version = 1, col_updated_at = now\<rparr>)]"

definition update_row :: "string \<Rightarrow> string \<times> string \<Rightarrow> bytes \<Rightarrow> table \<Rightarrow> table" where
  "update_row now pk enc t =
     map (\<lambda>(pk', r). if pk' = pk
            then (pk', r\<lparr>col_value := enc, col_version := sql_incr (col_version r), col_updated_at := now\<rparr>)
            else (pk', r)) t"

definition sqLiteStore_Set ::
  "'v sqLiteStore \<Rightarrow> string \<Rightarrow> string \<Rightarrow> string \<Rightarrow> 'v \<Rightarrow> fault + ((bool \<times> error option) \<times> 'v sqLiteStore)" where
  "sqLiteStore_Set s now kind key value =
     (if sq_closed s then Inr ((False, Some ErrClosed), s)
      else case Marshal (codec s) value of
        Inl err \<Rightarrow> Inr ((False, Some err), s)
      | Inr enc \<Rightarrow>
          if db_closed s then Inr ((False, Some errDBClosed), s)
          else
            (case map_of (zestor_kv s) (kind, key) of
               None \<Rightarrow>
                 (case publish (s\<lparr>zestor_kv := insert_row now (kind, key) enc (zestor_kv s)\<rparr>) kind
                         \<lparr>Kind = kind, Name = key, EventType = EventTypeCreate, Object = value\<rparr> of
                    Inl f \<Rightarrow> Inl f
                  | Inr s' \<Rightarrow> Inr ((True, None), s'))
             | Some r \<Rightarrow>
                 if col_value r = enc then Inr ((False, None), s)
                 else
                   (case publish (s\<lparr>zestor_kv := update_row now (kind, key) enc (zestor_kv s)\<rparr>) kind
                           \<lparr>Kind = kind, Name = key, EventType = EventTypeUpdate, Object = value\<rparr> of
                      Inl f \<Rightarrow> Inl f
                    | Inr s' \<Rightarrow> Inr ((False, None), s'))))"

definition sqLiteStore_SetFn ::
  "'v sqLiteStore \<Rightarrow> string \<Rightarrow> string \<Rightarrow> string \<Rightarrow> ('v \<Rightarrow> error + 'v) \<Rightarrow>
   fault + ((bool \<times> error option) \<times> 'v sqLiteStore)" where
  "sqLiteStore_SetFn s now kind key fn =
     (if sq_closed s then Inr ((False, Some ErrClosed), s)
      else if db_closed s then Inr ((False, Some errDBClosed), s)
      else
        (case map_of (zestor_kv s) (kind, key) of
           None \<Rightarrow> Inr ((False, Some ErrKeyNotFound), s)
         | Some r \<Rightarrow>
             (case Unmarshal (codec s) (col_value r) of
                Inl err2 \<Rightarrow> Inr ((False, Some err2), s)
              | Inr cur \<Rightarrow>
                  (case fn cur of
                     Inl err \<Rightarrow> Inr ((False, Some err), s)
                   | Inr nv \<Rightarrow>
                       (case Marshal (codec s) nv of
                          Inl err \<Rightarrow> Inr ((False, Some err), s)
                        | Inr newBytes \<Rightarrow>
                            if col_value r = newBytes then Inr ((False, None), s)
                            else
                              (case publish (s\<lparr>zestor_kv := update_row now (kind, key) newBytes (zestor_kv s)\<rparr>) kind
                                      \<lparr>Kind = kind, Name = key, EventType = EventTypeUpdate, Object = nv\<rparr> of
                                 Inl f \<Rightarrow> Inl f
                               | Inr s' \<Rightarrow> Inr ((False, None), s')))))))"

text \<open>
  The upsert statement of \<open>SetAll\<close>: an insert, or on conflict the new value with the
  version and the timestamp changed only when the stored bytes differ.
\<close>

definition upsert_row :: "string \<Rightarrow> string \<times> string \<Rightarrow> bytes \<Rightarrow> table \<Rightarrow> table" where
  "upsert_row now pk enc t =
     (case map_of t pk of
        None \<Rightarrow> insert_row now pk enc t
      | Some r0 \<Rightarrow>
          map (\<lambda>(pk', r). if pk' = pk
                 then (pk', \<lparr>col_value = enc,
                             col_version = (if col_value r \<noteq> enc then sql_incr (col_version r) else col_version r),
                             col_updated_at = (if col_value r \<noteq> enc then now else col_updated_at r)\<rparr>)
                 else (pk', r)) t)"

fun setAll_rows ::
  "'v Codec \<Rightarrow> string \<Rightarrow> string \<Rightarrow> string list \<Rightarrow> table \<Rightarrow> (string \<times> 'v) list \<Rightarrow> (string \<times> 'v) list \<Rightarrow>
   (string \<times> 'v) list \<Rightarrow> error + (table \<times> (string \<times> 'v) list \<times> (string \<times> 'v) list)" where
  "setAll_rows c now kind existingKeys t created updated [] = Inr (t, created, updated)"
| "setAll_rows c now kind existingKeys t created updated ((k, v) # vs) =
     (case Marshal c v of
        Inl err \<Rightarrow> Inl err
      | Inr enc \<Rightarrow>
          if k \<in> set existingKeys
          then setAll_rows c now kind existingKeys (upsert_row now (kind, k) enc t) created (AList.update k v updated) vs
          else setAll_rows c now kind existingKeys (upsert_row now (kind, k) enc t) (AList.update k v created) updated vs)"

definition sqLiteStore_SetAll ::
  "'v sqLiteStore \<Rightarrow> string \<Rightarrow> string \<Rightarrow> (string \<times> 'v) list \<Rightarrow> fault + (error option \<times> 'v sqLiteStore)" where
  "sqLiteStore_SetAll s now kind values =
     (if sq_closed s then Inr (Some ErrClosed, s)
      else if db_closed s then Inr (Some errDBClosed, s)
      else
        let existingKeys = map fst (kind_rows (zestor_kv s) kind) in
        case setAll_rows (codec s) now kind existingKeys (zestor_kv s) [] [] values of
          Inl err \<Rightarrow> Inr (Some err, s)
        | Inr (t, created, updated) \<Rightarrow>
            (case publish_all (s\<lparr>zestor_kv := t\<rparr>) kind
                    (map (mkEvent kind EventTypeCreate) created @ map (mkEvent kind EventTypeUpdate) updated) of
               Inl f \<Rightarrow> Inl f
             | Inr s' \<Rightarrow> Inr (None, s')))"

definition sqLiteStore_Delete ::
  "'v \<Rightarrow> 'v sqLiteStore \<Rightarrow> string \<Rightarrow> string \<Rightarrow> fault + ((bool \<times> 'v \<times> error option) \<times> 'v sqLiteStore)" where
  "sqLiteStore_Delete zero s kind key =
     (if sq_closed s then Inr ((False, zero, Some ErrClosed), s)
      else if db_closed s then Inr ((False, zero, Some errDBClosed), s)
      else
        (case map_of (zestor_kv s) (kind, key) of
           None \<Rightarrow> Inr ((False, zero, None), s)
         | Some r \<Rightarrow>
             (case Unmarshal (codec s) (col_value r) of
                Inl err \<Rightarrow> Inr ((False, zero, Some err), s)
              | Inr prev \<Rightarrow>
                  (case publish (s\<lparr>zestor_kv := AList.delete (kind, key) (zestor_kv s)\<rparr>) kind
                          \<lparr>Kind = kind, Name = key, EventType = EventTypeDelete, Object = prev\<rparr> of
                     Inl f \<Rightarrow> Inl f
                   | Inr s' \<Rightarrow> Inr ((True, prev, None), s')))))"

subsection \<open>Watch, cancel and Close\<close>

record sq_cancel =
  q_kind :: string
  q_w :: watcher

record sq_replay =
  p_kind :: string
  p_w :: watcher

fun sq_apply_opts :: "WatchCfg \<Rightarrow> (WatchCfg \<Rightarrow> WatchCfg) option list \<Rightarrow> WatchCfg" where
  "sq_apply_opts cfg [] = cfg"
| "sq_apply_opts cfg (None # opts) = sq_apply_opts cfg opts"
| "sq_apply_opts cfg (Some opt # opts) = sq_apply_opts (opt cfg) opts"

definition sqLiteStore_Watch ::
  "'v sqLiteStore \<Rightarrow> string \<Rightarrow> (WatchCfg \<Rightarrow> WatchCfg) option list \<Rightarrow>
   fault + ((error + (nat \<times> sq_cancel \<times> sq_replay option)) \<times> 'v sqLiteStore)" where
  "sqLiteStore_Watch s kind opts =
     (if kind = [] then Inr (Inl ErrKindRequired, s)
      else if sq_closed s then Inr (Inl ErrClosed, s)
      else
        let cfg = sq_apply_opts emptyCfg opts;
            bufSize = (if BufferSize cfg \<le> 0 then DefaultWatchBufferSize else BufferSize cfg);
            w = \<lparr>ch = length (sq_chans s), eventTypes = EventTypes cfg\<rparr>;
            s1 = s\<lparr>sq_chans := sq_chans s @ [make_chan (nat bufSize)]\<rparr>
        in case subs s1 of
             None \<Rightarrow> Inl NilMapAssignment
           | Some m \<Rightarrow>
               let ws = (case map_of m kind of None \<Rightarrow> [] | Some ws \<Rightarrow> ws);
                   s2 = s1\<lparr>subs := Some (AList.update kind (if w \<in> set ws then ws else ws @ [w]) m)\<rparr>;
                   task = (if Initial cfg \<and> sendInitial cfg then Some \<lparr>p_kind = kind, p_w = w\<rparr> else None)
               in Inr (Inr (ch w, \<lparr>q_kind = kind, q_w = w\<rparr>, task), s2))"

text \<open>
  The replay goroutine of the durable engine lists the kind when it runs, not when the
  subscription was made, and sends without blocking.
\<close>

definition sqLiteStore_replay :: "'v sqLiteStore \<Rightarrow> sq_replay \<Rightarrow> fault + 'v sqLiteStore" where
  "sqLiteStore_replay s t =
     (case sqLiteStore_List s (p_kind t) [] of
        Inl err \<Rightarrow> Inr s
      | Inr m \<Rightarrow>
          (case send_all (sq_chans s) (ch (p_w t)) (map (mkEvent (p_kind t) EventTypeCreate) m) of
             Inl f \<Rightarrow> Inl f
           | Inr h \<Rightarrow> Inr (s\<lparr>sq_chans := h\<rparr>)))"

definition sqLiteStore_cancel :: "sq_cancel \<Rightarrow> 'v sqLiteStore \<Rightarrow> fault + 'v sqLiteStore" where
  "sqLiteStore_cancel c s =
     (case subs s of
        None \<Rightarrow> Inr s
      | Some m \<Rightarrow>
          (case map_of m (q_kind c) of
             None \<Rightarrow> Inr s
           | Some ws \<Rightarrow>
               if q_w c \<in> set ws
               then
                 let ws' = removeAll (q_w c) ws;
                     m' = (if length ws' = 0 then AList.delete (q_kind c) m else AList.update (q_kind c) ws' m)
                 in case heap_close (sq_chans s) (ch (q_w c)) of
                      Inl f \<Rightarrow> Inl f
                    | Inr h \<Rightarrow> Inr (s\<lparr>subs := Some m', sq_chans := h\<rparr>)
               else Inr s))"

text \<open>\<open>Close\<close> returns what \<open>db.Close\<close> returns, which is the nil error in this model.\<close>

definition sqLiteStore_Close :: "'v sqLiteStore \<Rightarrow> fault + 'v sqLiteStore" where
  "sqLiteStore_Close s =
     (if sq_closed s then Inr s
      else
        case close_all (sq_chans s)
               (concat (map (\<lambda>(kind, ws). map ch ws) (case subs s of None \<Rightarrow> [] | Some m \<Rightarrow> m))) of
          Inl f \<Rightarrow> Inl f
        | Inr h \<Rightarrow> Inr (s\<lparr>sq_closed := True, subs := None, sq_chans := h, db_closed := True\<rparr>))"

section \<open>What delivery means, and the invariants of the two stores\<close>

text \<open>
  The effect that publishing one event to the watchers \<open>ws\<close> has on the channel at
  address \<open>a\<close>: the event is appended when a watcher with that channel accepts its
  type and the buffer has room; otherwise the channel is as before (the event is not
  for it, or it is dropped).
\<close>

definition delivered :: "watcher list \<Rightarrow> 'v Event \<Rightarrow> nat \<Rightarrow> 'v chan \<Rightarrow> 'v chan" where
  "delivered ws ev a c =
     (if (\<exists>w \<in> set ws. ch w = a \<and> accepts w (EventType ev)) \<and> length (buf c) < cap c
      then c\<lparr>buf := buf c @ [ev]\<rparr> else c)"

definition deliver_to :: "watcher list \<Rightarrow> 'v Event \<Rightarrow> 'v chan list \<Rightarrow> 'v chan list" where
  "deliver_to ws ev h = map (\<lambda>a. delivered ws ev a (h ! a)) [0..<length h]"

definition deliver_all :: "watcher list \<Rightarrow> 'v Event list \<Rightarrow> 'v chan list \<Rightarrow> 'v chan list" where
  "deliver_all ws evs h = foldl (\<lambda>h' ev. deliver_to ws ev h') h evs"

text \<open>
  What a run of events leaves in the channel of the watcher \<open>w\<close>: the events whose
  type it accepts, in order, as long as the buffer has room.
\<close>

definition received :: "watcher \<Rightarrow> 'v Event list \<Rightarrow> 'v chan \<Rightarrow> 'v chan" where
  "received w evs c =
     c\<lparr>buf := buf c @ take (cap c - length (buf c)) (filter (\<lambda>ev. accepts w (EventType ev)) evs)\<rparr>"

text \<open>
  The registered watchers have distinct channels, all allocated and open.
\<close>

definition regs_ok :: "'v chan list \<Rightarrow> watcher list \<Rightarrow> bool" where
  "regs_ok h ws = (distinct (map ch ws) \<and> (\<forall>w \<in> set ws. ch w < length h \<and> \<not> chan_closed (h ! ch w)))"

text \<open>Every channel that is not registered has been closed.\<close>

definition orphans_closed :: "'v chan list \<Rightarrow> watcher list \<Rightarrow> bool" where
  "orphans_closed h ws = (\<forall>a \<in> set [0..<length h]. a \<in> ch ` set ws \<or> chan_closed (h ! a))"

definition all_watchers :: "'v memStore \<Rightarrow> watcher list" where
  "all_watchers s = concat (map (\<lambda>(kind, m). map snd m) (watchers s))"

definition mem_inv :: "'v memStore \<Rightarrow> bool" where
  "mem_inv s =
     (distinct (map fst (watchers s)) \<and>
      (\<forall>(kind, m) \<in> set (watchers s). distinct (map fst m)) \<and>
      regs_ok (chans s) (all_watchers s) \<and>
      orphans_closed (chans s) (all_watchers s) \<and>
      (closed s \<longrightarrow> all_watchers s = []))"

text \<open>
  A cancel closure is sound for a store when its \<open>doneCh\<close> is allocated, and still open
  as long as the watcher id it was made for is registered.
\<close>

definition cancel_ok :: "'v memStore \<Rightarrow> mem_cancel \<Rightarrow> bool" where
  "cancel_ok s c =
     (c_doneCh c < length (dones s) \<and>
      (map_of (kind_watchers s (c_kind c)) (c_id c) \<noteq> None \<longrightarrow> \<not> dones s ! c_doneCh c))"

definition all_subs :: "'v sqLiteStore \<Rightarrow> watcher list" where
  "all_subs s = concat (map snd (case subs s of None \<Rightarrow> [] | Some m \<Rightarrow> m))"

definition sq_inv :: "'v sqLiteStore \<Rightarrow> bool" where
  "sq_inv s =
     (distinct (map fst (case subs s of None \<Rightarrow> [] | Some m \<Rightarrow> m)) \<and>
      regs_ok (sq_chans s) (all_subs s) \<and>
      orphans_closed (sq_chans s) (all_subs s) \<and>
      (sq_closed s \<longleftrightarrow> subs s = None) \<and>
      (sq_closed s \<longleftrightarrow> db_closed s))"

text \<open>
  How one write may change the row with primary key \<open>pk\<close>: a row that appears starts at
  version 1; a row that was there stays, with its version put through \<open>sql_incr\<close> when
  its bytes changed, and with the same version and timestamp when they did not.
\<close>

definition version_step :: "table \<Rightarrow> table \<Rightarrow> string \<times> string \<Rightarrow> bool" where
  "version_step t t' pk =
     (case map_of t pk of
        None \<Rightarrow> (case map_of t' pk of None \<Rightarrow> True | Some r' \<Rightarrow> col_version r' = 1)
      | Some r \<Rightarrow>
          (case map_of t' pk of
             None \<Rightarrow> False
           | Some r' \<Rightarrow>
               (if col_value r' \<noteq> col_value r then col_version r' = sql_incr (col_version r)
                else col_version r' = col_version r \<and> col_updated_at r' = col_updated_at r)))"

text \<open>
  What a write of the bytes \<open>enc\<close> at time \<open>now\<close> is to make of a row: a row that was
  not there starts at version 1; a row that holds the same bytes stays as it is, version
  and timestamp included; a row that holds other bytes takes the new bytes and the time
  of the write, and its version goes up by exactly one as long as it is a 64-bit
  integer.
\<close>

definition written_row :: "string \<Rightarrow> bytes \<Rightarrow> row option \<Rightarrow> row" where
  "written_row now enc old =
     (case old of
        None \<Rightarrow> \<lparr>col_value = enc, col_version = 1, col_updated_at = now\<rparr>
      | Some r \<Rightarrow>
          if col_value r = enc then r
          else \<lparr>col_value = enc,
                col_version = (if int64 (col_version r) then col_version r + 1 else col_version r),
                col_updated_at = now\<rparr>)"

text \<open>The capacity \<open>Watch\<close> gives the delivery channel: \<open>BufferSize\<close>, or the default when it is not positive.\<close>

definition watchBufSize :: "WatchCfg \<Rightarrow> nat" where
  "watchBufSize cfg = nat (if BufferSize cfg \<le> 0 then DefaultWatchBufferSize else BufferSize cfg)"

text \<open>The filter lets create events through: it is absent, or it contains \<open>create\<close>.\<close>

definition lets_create :: "WatchCfg \<Rightarrow> bool" where
  "lets_create cfg = (EventTypes cfg = None \<or> (\<exists>S. EventTypes cfg = Some S \<and> EventTypeCreate \<in> S))"

section \<open>Example stores\<close>

text \<open>
  Stores of strings used to instantiate the theorems. The zero value of a Go string is
  the empty string; the codec of the durable examples writes a string as its own bytes.
\<close>

definition idCodec :: "string Codec" where
  "idCodec = \<lparr>Marshal = (\<lambda>v. Inr v), Unmarshal = (\<lambda>b. Inr b)\<rparr>"

definition noOptions :: "string StoreOptions" where
  "noOptions = \<lparr>CompareFn = None, ValidateFns = None\<rparr>"

text \<open>An in-memory store after \<open>Watch("users")\<close>: one watcher, no entry.\<close>

definition ex_mem_watched :: "string memStore" where
  "ex_mem_watched =
     \<lparr>kinds = [(''users'', [])], validationFns = Map.empty,
      watchers = [(''users'', [(1, \<lparr>ch = 0, eventTypes = None\<rparr>)])],
      compareFn = DefaultCompareFunc (=), closed = False, watcherID = 1,
      chans = [\<lparr>buf = [], cap = 128, chan_closed = False\<rparr>], dones = [False]\<rparr>"

text \<open>The same store holding the entry \<open>a\<close>, the channel still empty.\<close>

definition ex_mem :: "string memStore" where
  "ex_mem = ex_mem_watched\<lparr>kinds := [(''users'', [(''a'', ''x'')])]\<rparr>"

text \<open>A durable store with one row and one watcher of its kind.\<close>

definition ex_sq :: "string sqLiteStore" where
  "ex_sq =
     \<lparr>zestor_kv = [((''users'', ''a''), \<lparr>col_value = ''x'', col_version = 1, col_updated_at = ''t0''\<rparr>)],
      db_closed = False, codec = idCodec,
      subs = Some [(''users'', [\<lparr>ch = 0, eventTypes = None\<rparr>])],
      sq_closed = False,
      sq_chans = [\<lparr>buf = [], cap = 128, chan_closed = False\<rparr>]\<rparr>"

text \<open>The watched in-memory store with a comparison function that never reports equality.\<close>

definition ex_mem_always :: "string memStore" where
  "ex_mem_always = ex_mem_watched\<lparr>compareFn := (\<lambda>prev new. False)\<rparr>"

text \<open>The durable store with its row at the largest version that is an INTEGER.\<close>

definition ex_sq_max :: "string sqLiteStore" where
  "ex_sq_max =
     ex_sq\<lparr>zestor_kv := [((''users'', ''a''),
                \<lparr>col_value = ''x'', col_version = 9223372036854775807, col_updated_at = ''t0''\<rparr>)]\<rparr>"

text \<open>The durable store with its watcher and no row.\<close>

definition ex_sq_watched :: "string sqLiteStore" where
  "ex_sq_watched = ex_sq\<lparr>zestor_kv := []\<rparr>"

text \<open>A new in-memory store whose kind \<open>users\<close> rejects the empty string.\<close>

definition rejectEmpty :: "string \<Rightarrow> error option" where
  "rejectEmpty v = (if v = [] then Some (ErrOther ''empty value'') else None)"

definition ex_mem_validating :: "string memStore" where
  "ex_mem_validating = NewMemStore (=) \<lparr>CompareFn = None, ValidateFns = Some [''users'' \<mapsto> rejectEmpty]\<rparr>"

text \<open>The two example stores after \<open>Close\<close>.\<close>

definition ex_mem_closed :: "string memStore" where
  "ex_mem_closed =
     ex_mem\<lparr>closed := True, watchers := [(''users'', [])],
            chans := [\<lparr>buf = [], cap = 128, chan_closed = True\<rparr>]\<rparr>"

definition ex_sq_closed :: "string sqLiteStore" where
  "ex_sq_closed =
     ex_sq\<lparr>sq_closed := True, subs := None,
           sq_chans := [\<lparr>buf = [], cap = 128, chan_closed = True\<rparr>], db_closed := True\<rparr>"

text \<open>
  The in-memory store \<open>ex_mem\<close> after a second \<open>Watch("users", WithInitialReplay())\<close>
  whose replay goroutine has not run yet, the goroutine, and the store after \<open>Close\<close>.
\<close>

definition ex_mem_replaying :: "string memStore" where
  "ex_mem_replaying =
     ex_mem\<lparr>watcherID := 2,
            chans := [\<lparr>buf = [], cap = 128, chan_closed = False\<rparr>, \<lparr>buf = [], cap = 128, chan_closed = False\<rparr>],
            watchers := [(''users'', [(1, \<lparr>ch = 0, eventTypes = None\<rparr>), (2, \<lparr>ch = 1, eventTypes = None\<rparr>)])],
            dones := [False, False]\<rparr>"

definition ex_replay_task :: "string mem_replay" where
  "ex_replay_task = \<lparr>r_kind = ''users'', r_snap = [(''a'', ''x'')], r_ch = 1, r_doneCh = 1\<rparr>"

definition ex_mem_replaying_closed :: "string memStore" where
  "ex_mem_replaying_closed =
     ex_mem_replaying\<lparr>closed := True, watchers := [(''users'', [])],
            chans := [\<lparr>buf = [], cap = 128, chan_closed = True\<rparr>, \<lparr>buf = [], cap = 128, chan_closed = True\<rparr>]\<rparr>"

section \<open>Properties\<close>

subsection \<open>Evaluation of the model on concrete stores\<close>

lemmas mem_eval =
  ensureKind_def kind_entries_def kind_watchers_def Let_def accepts_def heap_send_def chan_send_def
  make_chan_def DefaultCompareFunc_def

lemmas sq_eval =
  publish_def kind_subs_def Let_def accepts_def heap_send_def chan_send_def make_chan_def
  idCodec_def insert_row_def update_row_def sql_incr_def int64_def

subsection \<open>Fan-out on a sound registry\<close>

lemma heap_send_open:
  "a < length h \<Longrightarrow> \<not> chan_closed (h ! a) \<Longrightarrow>
   heap_send h a ev = Inr (h[a := (if length (buf (h ! a)) < cap (h ! a) then (h ! a)\<lparr>buf := buf (h ! a) @ [ev]\<rparr> else h ! a)])"
  by (simp add: heap_send_def chan_send_def)

lemma length_deliver_to [simp]: "length (deliver_to ws ev h) = length h"
  by (simp add: deliver_to_def)

lemma nth_deliver_to [simp]: "a < length h \<Longrightarrow> deliver_to ws ev h ! a = delivered ws ev a (h ! a)"
  by (simp add: deliver_to_def)

lemma delivered_closed [simp]: "chan_closed (delivered ws ev a c) = chan_closed c"
  by (simp add: delivered_def)

lemma delivered_cap [simp]: "cap (delivered ws ev a c) = cap c"
  by (simp add: delivered_def)

lemma regs_ok_Cons:
  "regs_ok h (w # ws) \<longleftrightarrow> ch w \<notin> ch ` set ws \<and> ch w < length h \<and> \<not> chan_closed (h ! ch w) \<and> regs_ok h ws"
  by (auto simp: regs_ok_def)

lemma regs_ok_shape:
  "regs_ok h ws \<Longrightarrow> length h' = length h \<Longrightarrow> (\<forall>a < length h. chan_closed (h' ! a) = chan_closed (h ! a)) \<Longrightarrow>
   regs_ok h' ws"
  by (auto simp: regs_ok_def)

lemma fanout_ok: "regs_ok h ws \<Longrightarrow> fanout h ws ev = Inr (deliver_to ws ev h)"
proof (induction ws arbitrary: h)
  case Nil
  show ?case by (auto simp: delivered_def intro!: nth_equalityI)
next
  case (Cons w ws)
  from Cons.prems have w: "ch w \<notin> ch ` set ws" "ch w < length h" "\<not> chan_closed (h ! ch w)" and r: "regs_ok h ws"
    by (simp_all add: regs_ok_Cons)
  show ?case
  proof (cases "accepts w (EventType ev)")
    case False
    have "deliver_to (w # ws) ev h = deliver_to ws ev h"
      using False by (auto simp: delivered_def intro!: nth_equalityI)
    with False Cons.IH[OF r] show ?thesis by simp
  next
    case True
    let ?c = "if length (buf (h ! ch w)) < cap (h ! ch w) then (h ! ch w)\<lparr>buf := buf (h ! ch w) @ [ev]\<rparr> else h ! ch w"
    let ?h1 = "h[ch w := ?c]"
    have s: "heap_send h (ch w) ev = Inr ?h1" using w by (simp add: heap_send_open)
    have r1: "regs_ok ?h1 ws"
      by (rule regs_ok_shape[OF r]) (use w in \<open>auto simp: nth_list_update\<close>)
    have "deliver_to ws ev ?h1 = deliver_to (w # ws) ev h"
    proof (rule nth_equalityI)
      show "length (deliver_to ws ev ?h1) = length (deliver_to (w # ws) ev h)" by simp
    next
      fix a assume "a < length (deliver_to ws ev ?h1)"
      then have a: "a < length h" by simp
      show "deliver_to ws ev ?h1 ! a = deliver_to (w # ws) ev h ! a"
      proof (cases "a = ch w")
        case True
        then have "\<not> (\<exists>w' \<in> set ws. ch w' = a)" using w(1) by (force simp: image_iff)
        then show ?thesis using a True \<open>accepts w (EventType ev)\<close>
          by (auto simp: delivered_def)
      next
        case False
        then show ?thesis using a by (auto simp: delivered_def)
      qed
    qed
    with True s Cons.IH[OF r1] show ?thesis by simp
  qed
qed

lemma send_all_open:
  "a < length h \<Longrightarrow> \<not> chan_closed (h ! a) \<Longrightarrow>
   send_all h a evs = Inr (h[a := (h ! a)\<lparr>buf := buf (h ! a) @ take (cap (h ! a) - length (buf (h ! a))) evs\<rparr>])"
proof (induction evs arbitrary: h)
  case Nil
  then show ?case by simp
next
  case (Cons ev evs)
  let ?c = "if length (buf (h ! a)) < cap (h ! a) then (h ! a)\<lparr>buf := buf (h ! a) @ [ev]\<rparr> else h ! a"
  have s: "heap_send h a (ev :: 'a Event) = Inr (h[a := ?c])" using Cons.prems by (simp add: heap_send_open)
  have "send_all (h[a := ?c]) a evs = Inr ((h[a := ?c])[a := ((h[a := ?c]) ! a)\<lparr>buf := buf ((h[a := ?c]) ! a) @ take (cap ((h[a := ?c]) ! a) - length (buf ((h[a := ?c]) ! a))) evs\<rparr>])"
    by (rule Cons.IH) (use Cons.prems in auto)
  with s Cons.prems show ?case
    by (auto simp: take_Cons' Suc_diff_Suc split: nat.splits)
qed

subsection \<open>Runs of events\<close>

lemma length_deliver_all [simp]: "length (deliver_all ws evs h) = length h"
  unfolding deliver_all_def by (induction evs arbitrary: h) simp_all

lemma nth_deliver_all:
  "a < length h \<Longrightarrow> deliver_all ws evs h ! a = foldl (\<lambda>c ev. delivered ws ev a c) (h ! a) evs"
  unfolding deliver_all_def by (induction evs arbitrary: h) simp_all

lemma deliver_all_Nil [simp]: "deliver_all ws [] h = h"
  by (simp add: deliver_all_def)

lemma deliver_all_single [simp]: "deliver_all ws [ev] h = deliver_to ws ev h"
  by (simp add: deliver_all_def)

lemma foldl_delivered_unreg:
  "a \<notin> ch ` set ws \<Longrightarrow> foldl (\<lambda>c ev. delivered ws ev a c) c evs = c"
  by (induction evs arbitrary: c) (auto simp: delivered_def)

lemma received_Nil [simp]: "received w [] c = c"
  by (simp add: received_def)

lemma received_Cons:
  "received w (ev # evs) c =
     received w evs (if accepts w (EventType ev) \<and> length (buf c) < cap c then c\<lparr>buf := buf c @ [ev]\<rparr> else c)"
  by (auto simp: received_def take_Cons' Suc_diff_Suc not_less split: nat.splits)

lemma delivered_reg:
  "distinct (map ch ws) \<Longrightarrow> w \<in> set ws \<Longrightarrow>
   delivered ws ev (ch w) c = (if accepts w (EventType ev) \<and> length (buf c) < cap c then c\<lparr>buf := buf c @ [ev]\<rparr> else c)"
  by (auto simp: delivered_def distinct_map inj_on_def)

lemma foldl_delivered_reg:
  "distinct (map ch ws) \<Longrightarrow> w \<in> set ws \<Longrightarrow>
   foldl (\<lambda>c ev. delivered ws ev (ch w) c) c evs = received w evs c"
  by (induction evs arbitrary: c) (simp_all add: received_Cons delivered_reg)

lemma received_append: "received w (xs @ ys) c = received w ys (received w xs c)"
  by (induction xs arbitrary: c) (simp_all add: received_Cons)

lemma received_shape [simp]:
  "chan_closed (received w evs c) = chan_closed c" "cap (received w evs c) = cap c"
  by (simp_all add: received_def)

lemma EventType_mkEvent [simp]:
  "EventType (mkEvent kind t kv) = t" "Object (mkEvent kind t kv) = snd kv"
  "Name (mkEvent kind t kv) = fst kv" "Kind (mkEvent kind t kv) = kind"
  by (simp_all add: mkEvent_def)

lemma received_same_type:
  "\<forall>ev \<in> set evs. EventType ev = t \<Longrightarrow>
   received w evs c = (if accepts w t then c\<lparr>buf := buf c @ take (cap c - length (buf c)) evs\<rparr> else c)"
  by (simp add: received_def filter_id_conv filter_empty_conv cong: filter_cong)

lemma send_all_received:
  assumes "a < length h" "\<not> chan_closed (h ! a)" "\<forall>ev \<in> set evs. EventType ev = t"
  shows "(if accepts w t then send_all h a evs else Inr h) = Inr (h[a := received w evs (h ! a)])"
  using assms received_same_type[OF assms(3), of w "h ! a"] by (simp add: send_all_open)

lemma setAll_notify_step:
  assumes "a < length h" "\<not> chan_closed (h ! a)" "ch w = a"
  shows "setAll_notify h (w # ws) kind created updated =
           setAll_notify (h[a := received w (map (mkEvent kind EventTypeCreate) created @ map (mkEvent kind EventTypeUpdate) updated) (h ! a)])
             ws kind created updated"
proof -
  let ?cs = "map (mkEvent kind EventTypeCreate) created"
  let ?us = "map (mkEvent kind EventTypeUpdate) updated"
  have 1: "(if accepts w EventTypeCreate then send_all h a ?cs else Inr h) = Inr (h[a := received w ?cs (h ! a)])"
    using assms by (intro send_all_received) auto
  let ?h1 = "h[a := received w ?cs (h ! a)]"
  have 2: "(if accepts w EventTypeUpdate then send_all ?h1 a ?us else Inr ?h1) = Inr (?h1[a := received w ?us (?h1 ! a)])"
    using assms by (intro send_all_received) auto
  have 3: "?h1[a := received w ?us (?h1 ! a)] = h[a := received w (?cs @ ?us) (h ! a)]"
    using assms by (simp add: received_append)
  show ?thesis
    using 1 2 3 assms(3)
    by (cases "accepts w EventTypeCreate"; cases "accepts w EventTypeUpdate") (simp_all add: Let_def)
qed

lemma setAll_notify_pointwise:
  "regs_ok h ws \<Longrightarrow>
   \<exists>h'. setAll_notify h ws kind created updated = Inr h' \<and> length h' = length h \<and>
     (\<forall>w \<in> set ws. h' ! ch w =
        received w (map (mkEvent kind EventTypeCreate) created @ map (mkEvent kind EventTypeUpdate) updated) (h ! ch w)) \<and>
     (\<forall>a. a \<notin> ch ` set ws \<longrightarrow> h' ! a = h ! a)"
proof (induction ws arbitrary: h)
  case Nil
  then show ?case by simp
next
  case (Cons w ws)
  let ?evs = "map (mkEvent kind EventTypeCreate) created @ map (mkEvent kind EventTypeUpdate) updated"
  from Cons.prems have w: "ch w \<notin> ch ` set ws" "ch w < length h" "\<not> chan_closed (h ! ch w)" and r: "regs_ok h ws"
    by (simp_all add: regs_ok_Cons)
  let ?h1 = "h[ch w := received w ?evs (h ! ch w)]"
  have r1: "regs_ok ?h1 ws"
    by (rule regs_ok_shape[OF r]) (use w in \<open>auto simp: nth_list_update\<close>)
  from Cons.IH[OF r1] obtain h' where h':
    "setAll_notify ?h1 ws kind created updated = Inr h'" "length h' = length ?h1"
    "\<forall>w' \<in> set ws. h' ! ch w' = received w' ?evs (?h1 ! ch w')"
    "\<forall>a. a \<notin> ch ` set ws \<longrightarrow> h' ! a = ?h1 ! a"
    by blast
  have "setAll_notify h (w # ws) kind created updated = Inr h'"
    using setAll_notify_step[OF w(2,3) refl, of ws kind created updated] h'(1) by simp
  moreover have "length h' = length h" using h'(2) by simp
  moreover have "h' ! ch w = received w ?evs (h ! ch w)"
    using h'(4) w by simp
  moreover have "\<forall>w' \<in> set ws. h' ! ch w' = received w' ?evs (h ! ch w')"
    using h'(3) w(1) by (auto simp: nth_list_update image_iff)
  moreover have "\<forall>a. a \<notin> ch ` set (w # ws) \<longrightarrow> h' ! a = h ! a"
    using h'(4) by auto
  ultimately show ?case by auto
qed

lemma setAll_notify_ok:
  assumes "regs_ok h ws"
  shows "setAll_notify h ws kind created updated =
    Inr (deliver_all ws (map (mkEvent kind EventTypeCreate) created @ map (mkEvent kind EventTypeUpdate) updated) h)"
proof -
  let ?evs = "map (mkEvent kind EventTypeCreate) created @ map (mkEvent kind EventTypeUpdate) updated"
  from setAll_notify_pointwise[OF assms, of kind created updated] obtain h' where h':
    "setAll_notify h ws kind created updated = Inr h'" "length h' = length h"
    "\<forall>w \<in> set ws. h' ! ch w = received w ?evs (h ! ch w)"
    "\<forall>a. a \<notin> ch ` set ws \<longrightarrow> h' ! a = h ! a"
    by blast
  have d: "distinct (map ch ws)" using assms by (simp add: regs_ok_def)
  have "h' = deliver_all ws ?evs h"
  proof (rule nth_equalityI)
    show "length h' = length (deliver_all ws ?evs h)" using h'(2) by simp
  next
    fix a assume "a < length h'"
    then have a: "a < length h" using h'(2) by simp
    show "h' ! a = deliver_all ws ?evs h ! a"
    proof (cases "a \<in> ch ` set ws")
      case True
      then obtain w where "w \<in> set ws" "a = ch w" by auto
      then show ?thesis using h'(3) a d by (simp add: nth_deliver_all foldl_delivered_reg received_append)
    next
      case False
      then show ?thesis using h'(4) a by (simp add: nth_deliver_all foldl_delivered_unreg)
    qed
  qed
  with h'(1) show ?thesis by simp
qed

lemma deliver_to_shape:
  "a < length h \<Longrightarrow> chan_closed (deliver_to ws ev h ! a) = chan_closed (h ! a)"
  by simp

lemma regs_ok_deliver_to [simp]: "regs_ok (deliver_to ws ev h) ws' = regs_ok h ws'"
  by (auto simp: regs_ok_def)

lemma regs_ok_deliver_all [simp]: "regs_ok (deliver_all ws evs h) ws' = regs_ok h ws'"
  unfolding deliver_all_def by (induction evs arbitrary: h) simp_all

lemma orphans_closed_deliver_to [simp]: "orphans_closed (deliver_to ws ev h) ws' = orphans_closed h ws'"
  by (auto simp: orphans_closed_def)

lemma orphans_closed_deliver_all [simp]: "orphans_closed (deliver_all ws evs h) ws' = orphans_closed h ws'"
  unfolding deliver_all_def by (induction evs arbitrary: h) simp_all


lemma close_all_ok:
  "regs_ok h ws \<Longrightarrow>
   close_all h (map ch ws) =
     Inr (map (\<lambda>a. if a \<in> ch ` set ws then (h ! a)\<lparr>chan_closed := True\<rparr> else h ! a) [0..<length h])"
proof (induction ws arbitrary: h)
  case Nil
  then show ?case by (simp add: map_nth)
next
  case (Cons w ws)
  from Cons.prems have w: "ch w \<notin> ch ` set ws" "ch w < length h" "\<not> chan_closed (h ! ch w)" and r: "regs_ok h ws"
    by (simp_all add: regs_ok_Cons)
  let ?h1 = "h[ch w := (h ! ch w)\<lparr>chan_closed := True\<rparr>]"
  have c: "heap_close h (ch w) = Inr ?h1" using w by (simp add: heap_close_def chan_close_def)
  have r1: "regs_ok ?h1 ws"
    using r w by (auto simp: regs_ok_def nth_list_update image_iff)
  have "map (\<lambda>a. if a \<in> ch ` set ws then (?h1 ! a)\<lparr>chan_closed := True\<rparr> else ?h1 ! a) [0..<length ?h1]
      = map (\<lambda>a. if a \<in> ch ` set (w # ws) then (h ! a)\<lparr>chan_closed := True\<rparr> else h ! a) [0..<length h]"
    using w by (auto simp: nth_list_update)
  with c Cons.IH[OF r1] show ?case by simp
qed

subsection \<open>The in-memory registry\<close>

lemma ensureKind_fields [simp]:
  "chans (ensureKind s kind) = chans s"
  "dones (ensureKind s kind) = dones s"
  "closed (ensureKind s kind) = closed s"
  "compareFn (ensureKind s kind) = compareFn s"
  "validationFns (ensureKind s kind) = validationFns s"
  "watcherID (ensureKind s kind) = watcherID s"
  by (simp_all add: ensureKind_def Let_def)

lemma map_of_append_absent:
  "map_of (xs @ [(k, v)]) k' = (case map_of xs k' of Some y \<Rightarrow> Some y | None \<Rightarrow> if k' = k then Some v else None)"
  by (induction xs) auto

lemma kind_entries_ensureKind [simp]: "kind_entries (ensureKind s kind) kd = kind_entries s kd"
  by (auto simp: ensureKind_def kind_entries_def Let_def map_of_append_absent split: option.splits if_splits)

lemma kind_watchers_ensureKind [simp]: "kind_watchers (ensureKind s kind) kd = kind_watchers s kd"
  by (auto simp: ensureKind_def kind_watchers_def Let_def map_of_append_absent split: option.splits if_splits)

lemma all_watchers_ensureKind [simp]: "all_watchers (ensureKind s kind) = all_watchers s"
  by (simp add: ensureKind_def all_watchers_def Let_def)

lemma ensureKind_registered:
  "map_of (kinds (ensureKind s kind)) kind \<noteq> None" "map_of (watchers (ensureKind s kind)) kind \<noteq> None"
  by (auto simp: ensureKind_def Let_def map_add_def split: option.splits)

lemma ensureKind_id:
  "map_of (kinds s) kind \<noteq> None \<Longrightarrow> map_of (watchers s) kind \<noteq> None \<Longrightarrow> ensureKind s kind = s"
  by (auto simp: ensureKind_def)

lemma mem_inv_ensureKind: "mem_inv s \<Longrightarrow> mem_inv (ensureKind s kind)"
  unfolding mem_inv_def
  by (auto simp: ensureKind_def Let_def all_watchers_def map_of_eq_None_iff)

lemma regs_ok_sub:
  assumes "regs_ok h (concat xss)" "xs \<in> set xss"
  shows "regs_ok h xs"
proof -
  from assms(2) obtain ys zs where "xss = ys @ xs # zs" by (auto simp: in_set_conv_decomp)
  with assms(1) show ?thesis by (auto simp: regs_ok_def)
qed

lemma mem_regs: "mem_inv s \<Longrightarrow> regs_ok (chans s) (map snd (kind_watchers s kind))"
proof (cases "map_of (watchers s) kind")
  case None
  then show ?thesis by (simp add: kind_watchers_def regs_ok_def)
next
  case (Some m)
  assume "mem_inv s"
  then have r: "regs_ok (chans s) (concat (map (\<lambda>(kind, m). map snd m) (watchers s)))"
    by (simp add: mem_inv_def all_watchers_def)
  from Some have "(kind, m) \<in> set (watchers s)" by (rule map_of_SomeD)
  then have "map snd m \<in> set (map (\<lambda>(kind, m). map snd m) (watchers s))" by force
  from regs_ok_sub[OF r this] Some show ?thesis by (simp add: kind_watchers_def)
qed

lemma memStore_Set_effect:
  assumes "mem_inv s" "\<not> closed s"
    and "(case validationFns s kind of None \<Rightarrow> None | Some fn \<Rightarrow> fn value) = None"
  shows "memStore_Set zero s kind key value =
     (let m = kind_entries s kind;
          prev = (case map_of m key of None \<Rightarrow> zero | Some p \<Rightarrow> p);
          s2 = (ensureKind s kind)\<lparr>kinds := AList.update kind (AList.update key value m) (kinds (ensureKind s kind))\<rparr>
      in if compareFn s prev value then Inr ((False, None), s2)
         else Inr ((map_of m key = None, None),
                   s2\<lparr>chans := deliver_to (map snd (kind_watchers s kind))
                      \<lparr>Kind = kind, Name = key,
                       EventType = (if map_of m key = None then EventTypeCreate else EventTypeUpdate),
                       Object = value\<rparr> (chans s)\<rparr>))"
proof -
  have k: "kind_watchers ((ensureKind s kind)\<lparr>kinds := X\<rparr>) kind = kind_watchers s kind" for X
    using kind_watchers_ensureKind[of s kind kind] by (simp add: kind_watchers_def)
  show ?thesis
    using assms fanout_ok[OF mem_regs[OF assms(1)], of kind]
    by (simp add: memStore_Set_def Let_def k)
qed

subsection \<open>Effects of the in-memory operations\<close>

lemma kind_watchers_kinds_update [simp]: "kind_watchers (s\<lparr>kinds := X\<rparr>) kd = kind_watchers s kd"
  by (simp add: kind_watchers_def)

lemma kind_entries_written:
  "kind_entries (s\<lparr>kinds := AList.update kind m (kinds s)\<rparr>) kd = (if kd = kind then m else kind_entries s kd)"
  by (simp add: kind_entries_def update_conv')

lemma kind_entries_chans_update [simp]: "kind_entries (s\<lparr>chans := X\<rparr>) kd = kind_entries s kd"
  by (simp add: kind_entries_def)

lemma memStore_SetFn_effect:
  assumes "mem_inv s" "\<not> closed s" "map_of (kind_entries s kind) key = Some prev" "fn prev = Inr value"
  shows "memStore_SetFn s kind key fn =
     Inr ((False, None),
          (ensureKind s kind)
            \<lparr>kinds := AList.update kind (AList.update key value (kind_entries s kind)) (kinds (ensureKind s kind)),
             chans := deliver_to (map snd (kind_watchers s kind))
                        \<lparr>Kind = kind, Name = key, EventType = EventTypeUpdate, Object = value\<rparr> (chans s)\<rparr>)"
  using assms fanout_ok[OF mem_regs[OF assms(1)], of kind]
  by (simp add: memStore_SetFn_def Let_def)

lemma memStore_Delete_effect:
  assumes "mem_inv s" "\<not> closed s" "map_of (kind_entries s kind) key = Some prev"
  shows "memStore_Delete zero s kind key =
     Inr ((True, prev, None),
          (ensureKind s kind)
            \<lparr>kinds := AList.update kind (AList.delete key (kind_entries s kind)) (kinds (ensureKind s kind)),
             chans := deliver_to (map snd (kind_watchers s kind))
                        \<lparr>Kind = kind, Name = key, EventType = EventTypeDelete, Object = prev\<rparr> (chans s)\<rparr>)"
  using assms fanout_ok[OF mem_regs[OF assms(1)], of kind]
  by (simp add: memStore_Delete_def Let_def)

lemma update_absent: "k \<notin> fst ` set al \<Longrightarrow> AList.update k v al = al @ [(k, v)]"
  by (induction al) auto

lemma setAll_write_result:
  "distinct (map fst vs) \<Longrightarrow> fst ` set vs \<inter> fst ` set c = {} \<Longrightarrow> fst ` set vs \<inter> fst ` set u = {} \<Longrightarrow>
   setAll_write m c u vs =
     (fold (\<lambda>(k, v). AList.update k v) vs m,
      c @ filter (\<lambda>(k, v). map_of m k = None) vs,
      u @ filter (\<lambda>(k, v). map_of m k \<noteq> None) vs)"
proof (induction vs arbitrary: m c u)
  case Nil
  then show ?case by simp
next
  case (Cons kv vs)
  obtain k v where kv: "kv = (k, v)" by (cases kv)
  from Cons.prems kv have d: "distinct (map fst vs)" and k: "k \<notin> fst ` set vs" "k \<notin> fst ` set c" "k \<notin> fst ` set u"
    and dj: "fst ` set vs \<inter> fst ` set c = {}" "fst ` set vs \<inter> fst ` set u = {}"
    by auto
  have same: "filter (\<lambda>(k', v'). P (map_of (AList.update k v m) k')) vs = filter (\<lambda>(k', v'). P (map_of m k')) vs" for P
    using k(1) by (intro filter_cong) (auto simp: update_conv' image_iff)
  show ?case
  proof (cases "map_of m k = None")
    case True
    have "setAll_write (AList.update k v m) (c @ [(k, v)]) u vs =
      (fold (\<lambda>(k, v). AList.update k v) vs (AList.update k v m),
       (c @ [(k, v)]) @ filter (\<lambda>(k', v'). map_of (AList.update k v m) k' = None) vs,
       u @ filter (\<lambda>(k', v'). map_of (AList.update k v m) k' \<noteq> None) vs)"
      using d k dj by (intro Cons.IH) auto
    then show ?thesis
      using True kv k same[of "\<lambda>x. x = None"] same[of "\<lambda>x. x \<noteq> None"]
      by (simp add: update_absent)
  next
    case False
    have "setAll_write (AList.update k v m) c (u @ [(k, v)]) vs =
      (fold (\<lambda>(k, v). AList.update k v) vs (AList.update k v m),
       c @ filter (\<lambda>(k', v'). map_of (AList.update k v m) k' = None) vs,
       (u @ [(k, v)]) @ filter (\<lambda>(k', v'). map_of (AList.update k v m) k' \<noteq> None) vs)"
      using d k dj by (intro Cons.IH) auto
    then show ?thesis
      using False kv k same[of "\<lambda>x. x = None"] same[of "\<lambda>x. x \<noteq> None"]
      by (simp add: update_absent)
  qed
qed


lemma memStore_SetAll_effect:
  assumes "mem_inv s" "\<not> closed s" "distinct (map fst values)"
    and "(case validationFns s kind of None \<Rightarrow> None | Some fn \<Rightarrow> validate_values fn values) = None"
  shows "memStore_SetAll s kind values =
     Inr (None,
          (ensureKind s kind)
            \<lparr>kinds := AList.update kind (fold (\<lambda>(k, v). AList.update k v) values (kind_entries s kind)) (kinds (ensureKind s kind)),
             chans := deliver_all (map snd (kind_watchers s kind))
                        (map (mkEvent kind EventTypeCreate) (filter (\<lambda>(k, v). map_of (kind_entries s kind) k = None) values) @
                         map (mkEvent kind EventTypeUpdate) (filter (\<lambda>(k, v). map_of (kind_entries s kind) k \<noteq> None) values))
                        (chans s)\<rparr>)"
  using assms setAll_notify_ok[OF mem_regs[OF assms(1)], of kind]
  by (simp add: memStore_SetAll_def Let_def setAll_write_result)

subsection \<open>Effects of the durable operations\<close>

lemma sq_regs: "sq_inv s \<Longrightarrow> regs_ok (sq_chans s) (kind_subs s kind)"
proof (cases "subs s")
  case None
  then show ?thesis by (simp add: kind_subs_def regs_ok_def)
next
  case (Some m)
  assume inv: "sq_inv s"
  show ?thesis
  proof (cases "map_of m kind")
    case None
    with Some show ?thesis by (simp add: kind_subs_def regs_ok_def)
  next
    case ws: (Some ws)
    from inv Some have r: "regs_ok (sq_chans s) (concat (map snd m))"
      by (simp add: sq_inv_def all_subs_def)
    from ws have "(kind, ws) \<in> set m" by (rule map_of_SomeD)
    then have "ws \<in> set (map snd m)" by force
    from regs_ok_sub[OF r this] Some ws show ?thesis by (simp add: kind_subs_def)
  qed
qed

lemma kind_subs_table [simp]: "kind_subs (s\<lparr>zestor_kv := t\<rparr>) kind = kind_subs s kind"
  by (simp add: kind_subs_def)

lemma kind_subs_chans [simp]: "kind_subs (s\<lparr>sq_chans := h\<rparr>) kind = kind_subs s kind"
  by (simp add: kind_subs_def)

lemma publish_ok:
  "regs_ok (sq_chans s) (kind_subs s kind) \<Longrightarrow>
   publish s kind ev = Inr (s\<lparr>sq_chans := deliver_to (kind_subs s kind) ev (sq_chans s)\<rparr>)"
  by (simp add: publish_def fanout_ok)

lemma publish_all_ok:
  "regs_ok (sq_chans s) (kind_subs s kind) \<Longrightarrow>
   publish_all s kind evs = Inr (s\<lparr>sq_chans := deliver_all (kind_subs s kind) evs (sq_chans s)\<rparr>)"
proof (induction evs arbitrary: s)
  case Nil
  then show ?case by simp
next
  case (Cons ev evs)
  let ?s1 = "s\<lparr>sq_chans := deliver_to (kind_subs s kind) ev (sq_chans s)\<rparr>"
  have "publish_all ?s1 kind evs = Inr (?s1\<lparr>sq_chans := deliver_all (kind_subs ?s1 kind) evs (sq_chans ?s1)\<rparr>)"
    by (rule Cons.IH) (use Cons.prems in simp)
  with Cons.prems show ?case by (simp add: publish_ok deliver_all_def)
qed

lemma publish_table: "publish s kind ev = Inr s' \<Longrightarrow> zestor_kv s' = zestor_kv s"
  by (auto simp: publish_def split: sum.splits)

lemma publish_all_table: "publish_all s kind evs = Inr s' \<Longrightarrow> zestor_kv s' = zestor_kv s"
  by (induction evs arbitrary: s) (auto split: sum.splits dest: publish_table)

lemma map_of_insert_row:
  "map_of t pk = None \<Longrightarrow>
   map_of (insert_row now pk enc t) pk' =
     (if pk' = pk then Some \<lparr>col_value = enc, col_version = 1, col_updated_at = now\<rparr> else map_of t pk')"
  by (auto simp: insert_row_def map_add_def split: option.splits)

lemma map_of_update_row:
  "map_of (update_row now pk enc t) pk' =
     (if pk' = pk
      then map_option (\<lambda>r. r\<lparr>col_value := enc, col_version := sql_incr (col_version r), col_updated_at := now\<rparr>) (map_of t pk)
      else map_of t pk')"
  unfolding update_row_def by (induction t) auto

lemma map_of_upsert_row:
  "map_of (upsert_row now pk enc t) pk' =
     (if pk' = pk
      then (case map_of t pk of
              None \<Rightarrow> Some \<lparr>col_value = enc, col_version = 1, col_updated_at = now\<rparr>
            | Some r \<Rightarrow> Some \<lparr>col_value = enc,
                              col_version = (if col_value r \<noteq> enc then sql_incr (col_version r) else col_version r),
                              col_updated_at = (if col_value r \<noteq> enc then now else col_updated_at r)\<rparr>)
      else map_of t pk')"
proof (cases "map_of t pk")
  case None
  then show ?thesis by (simp add: upsert_row_def map_of_insert_row)
next
  case (Some r0)
  have "map_of (map (\<lambda>(pk', r). if pk' = pk
                 then (pk', \<lparr>col_value = enc,
                             col_version = (if col_value r \<noteq> enc then sql_incr (col_version r) else col_version r),
                             col_updated_at = (if col_value r \<noteq> enc then now else col_updated_at r)\<rparr>)
                 else (pk', r)) t) pk' =
     (if pk' = pk
      then map_option (\<lambda>r. \<lparr>col_value = enc,
                              col_version = (if col_value r \<noteq> enc then sql_incr (col_version r) else col_version r),
                              col_updated_at = (if col_value r \<noteq> enc then now else col_updated_at r)\<rparr>) (map_of t pk)
      else map_of t pk')"
    by (induction t) auto
  with Some show ?thesis by (simp add: upsert_row_def)
qed

lemma existingKeys_iff: "k \<in> set (map fst (kind_rows t kind)) \<longleftrightarrow> map_of t (kind, k) \<noteq> None"
  by (force simp: kind_rows_def map_of_eq_None_iff image_iff)

lemma sqLiteStore_Set_effect:
  assumes "sq_inv s" "\<not> sq_closed s" "Marshal (codec s) value = Inr enc"
  shows "sqLiteStore_Set s now kind key value =
     (case map_of (zestor_kv s) (kind, key) of
        None \<Rightarrow>
          Inr ((True, None),
               s\<lparr>zestor_kv := insert_row now (kind, key) enc (zestor_kv s),
                  sq_chans := deliver_to (kind_subs s kind)
                     \<lparr>Kind = kind, Name = key, EventType = EventTypeCreate, Object = value\<rparr> (sq_chans s)\<rparr>)
      | Some r \<Rightarrow>
          if col_value r = enc then Inr ((False, None), s)
          else Inr ((False, None),
               s\<lparr>zestor_kv := update_row now (kind, key) enc (zestor_kv s),
                  sq_chans := deliver_to (kind_subs s kind)
                     \<lparr>Kind = kind, Name = key, EventType = EventTypeUpdate, Object = value\<rparr> (sq_chans s)\<rparr>))"
proof -
  have "\<not> db_closed s" using assms by (simp add: sq_inv_def)
  then show ?thesis
    using assms sq_regs[OF assms(1), of kind]
    by (simp add: sqLiteStore_Set_def publish_ok split: option.splits)
qed

lemma sqLiteStore_SetFn_effect:
  assumes "sq_inv s" "\<not> sq_closed s" "map_of (zestor_kv s) (kind, key) = Some r"
    and "Unmarshal (codec s) (col_value r) = Inr cur" "fn cur = Inr nv" "Marshal (codec s) nv = Inr newBytes"
  shows "sqLiteStore_SetFn s now kind key fn =
     (if col_value r = newBytes then Inr ((False, None), s)
      else Inr ((False, None),
               s\<lparr>zestor_kv := update_row now (kind, key) newBytes (zestor_kv s),
                  sq_chans := deliver_to (kind_subs s kind)
                     \<lparr>Kind = kind, Name = key, EventType = EventTypeUpdate, Object = nv\<rparr> (sq_chans s)\<rparr>))"
proof -
  have "\<not> db_closed s" using assms by (simp add: sq_inv_def)
  then show ?thesis
    using assms sq_regs[OF assms(1), of kind]
    by (simp add: sqLiteStore_SetFn_def publish_ok)
qed

lemma sqLiteStore_Delete_effect:
  assumes "sq_inv s" "\<not> sq_closed s" "map_of (zestor_kv s) (kind, key) = Some r"
    and "Unmarshal (codec s) (col_value r) = Inr prev"
  shows "sqLiteStore_Delete zero s kind key =
     Inr ((True, prev, None),
          s\<lparr>zestor_kv := AList.delete (kind, key) (zestor_kv s),
             sq_chans := deliver_to (kind_subs s kind)
                \<lparr>Kind = kind, Name = key, EventType = EventTypeDelete, Object = prev\<rparr> (sq_chans s)\<rparr>)"
proof -
  have "\<not> db_closed s" using assms by (simp add: sq_inv_def)
  then show ?thesis
    using assms sq_regs[OF assms(1), of kind]
    by (simp add: sqLiteStore_Delete_def publish_ok)
qed

subsection \<open>A Set repeated\<close>

lemma mem_inv_kinds [simp]: "mem_inv (s\<lparr>kinds := X\<rparr>) = mem_inv s"
  by (simp add: mem_inv_def all_watchers_def)

lemma mem_inv_deliver_to [simp]: "mem_inv (s\<lparr>chans := deliver_to ws ev (chans s)\<rparr>) = mem_inv s"
  by (simp add: mem_inv_def all_watchers_def)

lemma mem_inv_deliver_all [simp]: "mem_inv (s\<lparr>chans := deliver_all ws evs (chans s)\<rparr>) = mem_inv s"
  by (simp add: mem_inv_def all_watchers_def)

lemma sq_inv_table [simp]: "sq_inv (s\<lparr>zestor_kv := t\<rparr>) = sq_inv s"
  by (simp add: sq_inv_def all_subs_def)

lemma sq_inv_deliver_to [simp]: "sq_inv (s\<lparr>sq_chans := deliver_to ws ev (sq_chans s)\<rparr>) = sq_inv s"
  by (simp add: sq_inv_def all_subs_def)

lemma sq_inv_deliver_all [simp]: "sq_inv (s\<lparr>sq_chans := deliver_all ws evs (sq_chans s)\<rparr>) = sq_inv s"
  by (simp add: sq_inv_def all_subs_def)

lemma memStore_Set_absent:
  assumes "mem_inv s" "\<not> closed s"
    and "(case validationFns s kind of None \<Rightarrow> None | Some fn \<Rightarrow> fn v) = None"
    and "map_of (kind_entries s kind) key = None" "\<not> compareFn s zero v"
  shows "memStore_Set zero s kind key v =
     Inr ((True, None),
          (ensureKind s kind)
            \<lparr>kinds := AList.update kind (AList.update key v (kind_entries s kind)) (kinds (ensureKind s kind)),
             chans := deliver_to (map snd (kind_watchers s kind))
                        \<lparr>Kind = kind, Name = key, EventType = EventTypeCreate, Object = v\<rparr> (chans s)\<rparr>)"
  using assms by (simp add: memStore_Set_effect)

lemma memStore_Set_present:
  assumes "mem_inv s" "\<not> closed s"
    and "(case validationFns s kind of None \<Rightarrow> None | Some fn \<Rightarrow> fn v) = None"
    and "map_of (kind_entries s kind) key = Some prev"
    and "map_of (kinds s) kind \<noteq> None" "map_of (watchers s) kind \<noteq> None"
  shows "memStore_Set zero s kind key v =
     (if compareFn s prev v
      then Inr ((False, None), s\<lparr>kinds := AList.update kind (AList.update key v (kind_entries s kind)) (kinds s)\<rparr>)
      else Inr ((False, None),
                s\<lparr>kinds := AList.update kind (AList.update key v (kind_entries s kind)) (kinds s),
                   chans := deliver_to (map snd (kind_watchers s kind))
                        \<lparr>Kind = kind, Name = key, EventType = EventTypeUpdate, Object = v\<rparr> (chans s)\<rparr>))"
  using assms by (simp add: memStore_Set_effect ensureKind_id)

lemma kinds_rewrite_same:
  assumes "map_of (kinds s) kind = Some m" "map_of m key = Some v"
  shows "s\<lparr>kinds := AList.update kind (AList.update key v m) (kinds s)\<rparr> = s"
  using assms by (simp add: update_triv)

lemma set_twice_mem:
  assumes "mem_inv s" "\<not> closed s"
    and "(case validationFns s kind of None \<Rightarrow> None | Some fn \<Rightarrow> fn v) = None"
    and "map_of (kind_entries s kind) key = None" "\<not> compareFn s zero v"
  shows "\<exists>s1. memStore_Set zero s kind key v = Inr ((True, None), s1) \<and>
           chans s1 = deliver_to (map snd (kind_watchers s kind))
                        \<lparr>Kind = kind, Name = key, EventType = EventTypeCreate, Object = v\<rparr> (chans s) \<and>
           memStore_Set zero s1 kind key v =
             Inr ((False, None),
                  if compareFn s v v then s1
                  else s1\<lparr>chans := deliver_to (map snd (kind_watchers s kind))
                         \<lparr>Kind = kind, Name = key, EventType = EventTypeUpdate, Object = v\<rparr> (chans s1)\<rparr>)"
proof -
  let ?m = "AList.update key v (kind_entries s kind)"
  let ?s1 = "(ensureKind s kind)
            \<lparr>kinds := AList.update kind ?m (kinds (ensureKind s kind)),
             chans := deliver_to (map snd (kind_watchers s kind))
                        \<lparr>Kind = kind, Name = key, EventType = EventTypeCreate, Object = v\<rparr> (chans s)\<rparr>"
  have 1: "memStore_Set zero s kind key v = Inr ((True, None), ?s1)"
    using assms by (rule memStore_Set_absent)
  have inv1: "mem_inv ?s1" using mem_inv_ensureKind[OF assms(1), of kind]
    by (simp add: mem_inv_def all_watchers_def)
  have k1: "map_of (kinds ?s1) kind = Some ?m" by (simp add: update_conv')
  have e1: "kind_entries ?s1 kind = ?m" using k1 by (simp add: kind_entries_def)
  have w1: "map_of (watchers ?s1) kind \<noteq> None" using ensureKind_registered(2)[of s kind] by simp
  have p1: "map_of (kind_entries ?s1 kind) key = Some v" unfolding e1 by (simp add: update_conv')
  have id1: "?s1\<lparr>kinds := AList.update kind (AList.update key v (kind_entries ?s1 kind)) (kinds ?s1)\<rparr> = ?s1"
    unfolding e1 using k1 by (intro kinds_rewrite_same) (simp_all add: update_conv')
  have kw: "kind_watchers ?s1 kind = kind_watchers s kind"
    using kind_watchers_ensureKind[of s kind kind] by (simp add: kind_watchers_def)
  have "memStore_Set zero ?s1 kind key v =
     (if compareFn ?s1 v v
      then Inr ((False, None), ?s1\<lparr>kinds := AList.update kind (AList.update key v (kind_entries ?s1 kind)) (kinds ?s1)\<rparr>)
      else Inr ((False, None),
                ?s1\<lparr>kinds := AList.update kind (AList.update key v (kind_entries ?s1 kind)) (kinds ?s1),
                   chans := deliver_to (map snd (kind_watchers ?s1 kind))
                        \<lparr>Kind = kind, Name = key, EventType = EventTypeUpdate, Object = v\<rparr> (chans ?s1)\<rparr>))"
    using inv1 _ _ p1 _ w1
    by (rule memStore_Set_present) (use assms k1 in simp_all)
  then have 2: "memStore_Set zero ?s1 kind key v =
     Inr ((False, None),
                  if compareFn s v v then ?s1
                  else ?s1\<lparr>chans := deliver_to (map snd (kind_watchers s kind))
                         \<lparr>Kind = kind, Name = key, EventType = EventTypeUpdate, Object = v\<rparr> (chans ?s1)\<rparr>)"
    unfolding id1 kw by simp
  from 1 2 show ?thesis by (intro exI[of _ ?s1]) simp
qed

lemma set_twice_sq:
  assumes "sq_inv q" "\<not> sq_closed q" "Marshal (codec q) v = Inr enc" "map_of (zestor_kv q) (kind, key) = None"
  shows "\<exists>q1. sqLiteStore_Set q now kind key v = Inr ((True, None), q1) \<and>
           map_of (zestor_kv q1) (kind, key) = Some \<lparr>col_value = enc, col_version = 1, col_updated_at = now\<rparr> \<and>
           sq_chans q1 = deliver_to (kind_subs q kind)
                        \<lparr>Kind = kind, Name = key, EventType = EventTypeCreate, Object = v\<rparr> (sq_chans q) \<and>
           sqLiteStore_Set q1 now' kind key v = Inr ((False, None), q1)"
proof -
  let ?q1 = "q\<lparr>zestor_kv := insert_row now (kind, key) enc (zestor_kv q),
                  sq_chans := deliver_to (kind_subs q kind)
                     \<lparr>Kind = kind, Name = key, EventType = EventTypeCreate, Object = v\<rparr> (sq_chans q)\<rparr>"
  have 1: "sqLiteStore_Set q now kind key v = Inr ((True, None), ?q1)"
    using assms by (simp add: sqLiteStore_Set_effect)
  have r: "map_of (zestor_kv ?q1) (kind, key) = Some \<lparr>col_value = enc, col_version = 1, col_updated_at = now\<rparr>"
    using assms(4) by (simp add: map_of_insert_row)
  have inv1: "sq_inv ?q1" using assms(1) by (auto simp: sq_inv_def all_subs_def)
  have 2: "sqLiteStore_Set ?q1 now' kind key v = Inr ((False, None), ?q1)"
    using sqLiteStore_Set_effect[OF inv1, of v enc now' kind key] assms(2,3) r by simp
  from 1 r 2 show ?thesis by (intro exI[of _ ?q1]) simp
qed

lemmas ex_defs =
  ex_mem_def ex_mem_watched_def ex_mem_always_def ex_sq_def ex_sq_watched_def noOptions_def
  ex_mem_validating_def rejectEmpty_def NewMemStore_def ex_mem_closed_def ex_sq_closed_def ex_sq_max_def

lemmas inv_eval =
  mem_inv_def sq_inv_def all_watchers_def all_subs_def regs_ok_def orphans_closed_def cancel_ok_def

lemmas deliver_eval = deliver_to_def deliver_all_def delivered_def received_def accepts_def

text \<open>
  Where a repeated \<open>Set\<close> does what is documented. On an open store where the key is
  absent, a \<open>Set\<close> followed by the same \<open>Set\<close>: in the durable engine the first call
  reports created and delivers one create event, the second reports not created and
  returns the store as it was (same version, same timestamp, same channels). In the
  in-memory engine, when the comparison function does not equate the value with the zero
  value, the first call reports created and delivers a create event; the second reports
  not created, and leaves the store as it was when the comparison function equates the
  value with itself, and delivers an update event when it does not.
\<close>

lemma Set_repeated:
  assumes "mem_inv s" "\<not> closed s"
    and "(case validationFns s kind of None \<Rightarrow> None | Some fn \<Rightarrow> fn v) = None"
    and "map_of (kind_entries s kind) key = None" "\<not> compareFn s zero v"
    and "sq_inv q" "\<not> sq_closed q" "Marshal (codec q) v = Inr enc" "map_of (zestor_kv q) (kind, key) = None"
  shows "(\<exists>s1. memStore_Set zero s kind key v = Inr ((True, None), s1) \<and>
           chans s1 = deliver_to (map snd (kind_watchers s kind))
                        \<lparr>Kind = kind, Name = key, EventType = EventTypeCreate, Object = v\<rparr> (chans s) \<and>
           memStore_Set zero s1 kind key v =
             Inr ((False, None),
                  if compareFn s v v then s1
                  else s1\<lparr>chans := deliver_to (map snd (kind_watchers s kind))
                         \<lparr>Kind = kind, Name = key, EventType = EventTypeUpdate, Object = v\<rparr> (chans s1)\<rparr>)) \<and>
         (\<exists>q1. sqLiteStore_Set q now kind key v = Inr ((True, None), q1) \<and>
           map_of (zestor_kv q1) (kind, key) = Some \<lparr>col_value = enc, col_version = 1, col_updated_at = now\<rparr> \<and>
           sq_chans q1 = deliver_to (kind_subs q kind)
                        \<lparr>Kind = kind, Name = key, EventType = EventTypeCreate, Object = v\<rparr> (sq_chans q) \<and>
           sqLiteStore_Set q1 now' kind key v = Inr ((False, None), q1))"
  using set_twice_mem[OF assms(1-5)] set_twice_sq[OF assms(6-9)] by blast

lemma Set_repeated_instance:
  "mem_inv ex_mem_watched \<and> sq_inv ex_sq_watched \<and>
   (\<exists>s1. memStore_Set [] ex_mem_watched ''users'' ''a'' ''x'' = Inr ((True, None), s1) \<and>
      chans s1 = [\<lparr>buf = [\<lparr>Kind = ''users'', Name = ''a'', EventType = EventTypeCreate, Object = ''x''\<rparr>],
                   cap = 128, chan_closed = False\<rparr>] \<and>
      memStore_Set [] s1 ''users'' ''a'' ''x'' = Inr ((False, None), s1)) \<and>
   (\<exists>q1. sqLiteStore_Set ex_sq_watched ''t1'' ''users'' ''a'' ''x'' = Inr ((True, None), q1) \<and>
      map_of (zestor_kv q1) (''users'', ''a'') = Some \<lparr>col_value = ''x'', col_version = 1, col_updated_at = ''t1''\<rparr> \<and>
      sq_chans q1 = [\<lparr>buf = [\<lparr>Kind = ''users'', Name = ''a'', EventType = EventTypeCreate, Object = ''x''\<rparr>],
                      cap = 128, chan_closed = False\<rparr>] \<and>
      sqLiteStore_Set q1 ''t2'' ''users'' ''a'' ''x'' = Inr ((False, None), q1))"
proof -
  have m: "mem_inv ex_mem_watched" by (simp add: ex_defs inv_eval)
  have q: "sq_inv ex_sq_watched" by (simp add: ex_defs inv_eval)
  have h: "\<not> closed ex_mem_watched"
    "(case validationFns ex_mem_watched ''users'' of None \<Rightarrow> None | Some fn \<Rightarrow> fn ''x'') = None"
    "map_of (kind_entries ex_mem_watched ''users'') ''a'' = None"
    "\<not> compareFn ex_mem_watched [] ''x''"
    "\<not> sq_closed ex_sq_watched" "Marshal (codec ex_sq_watched) ''x'' = Inr ''x''"
    "map_of (zestor_kv ex_sq_watched) (''users'', ''a'') = None"
    by (simp_all add: ex_defs mem_eval idCodec_def)
  have c: "compareFn ex_mem_watched ''x'' ''x''" by (simp add: ex_defs mem_eval)
  have d: "deliver_to (map snd (kind_watchers ex_mem_watched ''users'')) ev (chans ex_mem_watched) =
             [\<lparr>buf = [ev], cap = 128, chan_closed = False\<rparr>]"
          "deliver_to (kind_subs ex_sq_watched ''users'') ev (sq_chans ex_sq_watched) =
             [\<lparr>buf = [ev], cap = 128, chan_closed = False\<rparr>]" for ev :: "string Event"
    by (simp_all add: ex_defs mem_eval kind_subs_def deliver_eval)
  from Set_repeated[OF m h(1-4) q h(5-7), of "''t1''" "''t2''"] m q c d show ?thesis by simp
qed

text \<open>
  The comparison function is the caller's: with one that does not equate a value with
  itself, the second, identical \<open>Set\<close> delivers an update event.
\<close>

lemma Set_repeated_never_equal:
  "memStore_Set [] ex_mem_always ''users'' ''a'' ''x'' =
     Inr ((True, None),
          ex_mem_always\<lparr>kinds := [(''users'', [(''a'', ''x'')])],
            chans := [\<lparr>buf = [\<lparr>Kind = ''users'', Name = ''a'', EventType = EventTypeCreate, Object = ''x''\<rparr>],
                       cap = 128, chan_closed = False\<rparr>]\<rparr>) \<and>
   memStore_Set []
     (ex_mem_always\<lparr>kinds := [(''users'', [(''a'', ''x'')])],
            chans := [\<lparr>buf = [\<lparr>Kind = ''users'', Name = ''a'', EventType = EventTypeCreate, Object = ''x''\<rparr>],
                       cap = 128, chan_closed = False\<rparr>]\<rparr>) ''users'' ''a'' ''x'' =
     Inr ((False, None),
          ex_mem_always\<lparr>kinds := [(''users'', [(''a'', ''x'')])],
            chans := [\<lparr>buf = [\<lparr>Kind = ''users'', Name = ''a'', EventType = EventTypeCreate, Object = ''x''\<rparr>,
                              \<lparr>Kind = ''users'', Name = ''a'', EventType = EventTypeUpdate, Object = ''x''\<rparr>],
                       cap = 128, chan_closed = False\<rparr>]\<rparr>)"
  by (simp add: memStore_Set_def ex_defs mem_eval)

text \<open>
  C1. For a key that is absent, \<open>Set\<close> followed by the identical \<open>Set\<close> is to report
  created and then not created, and the in-memory engine is to emit a create event on
  the first call and none on the second. The in-memory \<open>Set\<close> does not do so for the zero
  value of the value type under the default options: \<open>prev, existed := s.kinds[kind][key]\<close>
  reads the zero value for an absent key, and \<open>compareFn(prev, value)\<close> returns before
  \<open>existed\<close> is looked at. Evaluated on a new store of strings with default options and
  one watcher of the kind: the key is absent, the first \<open>Set\<close> of the empty string stores
  the entry, reports not created and leaves the watcher's channel empty. On the same
  store a \<open>Set\<close> of another value reports created and delivers the create event, and so
  does the durable engine for the empty string.
\<close>

theorem set_twice_zero_value:
  "memStore_Watch (NewMemStore (=) noOptions) ''users'' [] =
     Inr (Inr (0, \<lparr>c_kind = ''users'', c_id = 1, c_doneCh = 0\<rparr>, None), ex_mem_watched) \<and>
   memStore_Get [] ex_mem_watched ''users'' ''a'' = ([], False, None) \<and>
   chans ex_mem_watched = [\<lparr>buf = [], cap = 128, chan_closed = False\<rparr>] \<and>
   memStore_Set [] ex_mem_watched ''users'' ''a'' [] =
     Inr ((False, None), ex_mem_watched\<lparr>kinds := [(''users'', [(''a'', [])])]\<rparr>) \<and>
   memStore_Get [] (ex_mem_watched\<lparr>kinds := [(''users'', [(''a'', [])])]\<rparr>) ''users'' ''a'' = ([], True, None) \<and>
   chans (ex_mem_watched\<lparr>kinds := [(''users'', [(''a'', [])])]\<rparr>) = [\<lparr>buf = [], cap = 128, chan_closed = False\<rparr>] \<and>
   memStore_Set [] ex_mem_watched ''users'' ''a'' ''x'' =
     Inr ((True, None),
          ex_mem_watched\<lparr>kinds := [(''users'', [(''a'', ''x'')])],
            chans := [\<lparr>buf = [\<lparr>Kind = ''users'', Name = ''a'', EventType = EventTypeCreate, Object = ''x''\<rparr>],
                       cap = 128, chan_closed = False\<rparr>]\<rparr>) \<and>
   sqLiteStore_Set ex_sq_watched ''t1'' ''users'' ''a'' [] =
     Inr ((True, None),
          ex_sq_watched\<lparr>zestor_kv := [((''users'', ''a''), \<lparr>col_value = [], col_version = 1, col_updated_at = ''t1''\<rparr>)],
            sq_chans := [\<lparr>buf = [\<lparr>Kind = ''users'', Name = ''a'', EventType = EventTypeCreate, Object = []\<rparr>],
                          cap = 128, chan_closed = False\<rparr>]\<rparr>)"
  by (simp add: memStore_Watch_def memStore_Set_def memStore_Get_def sqLiteStore_Set_def
      emptyCfg_def DefaultWatchBufferSize_def ex_defs mem_eval sq_eval)

subsection \<open>Versions of the durable rows\<close>

lemma version_step_same: "map_of t' pk = map_of t pk \<Longrightarrow> version_step t t' pk"
  by (simp add: version_step_def split: option.splits)

lemma version_step_insert: "map_of t pk0 = None \<Longrightarrow> version_step t (insert_row now pk0 enc t) pk"
  by (simp add: version_step_def map_of_insert_row split: option.splits)

lemma version_step_update:
  "map_of t pk0 = Some r \<Longrightarrow> col_value r \<noteq> enc \<Longrightarrow> version_step t (update_row now pk0 enc t) pk"
  by (simp add: version_step_def map_of_update_row split: option.splits)

lemma version_step_upsert: "version_step t (upsert_row now pk0 enc t) pk"
  by (simp add: version_step_def map_of_upsert_row split: option.splits)

lemma version_step_never_decreases:
  "version_step t t' pk \<Longrightarrow> map_of t pk = Some r \<Longrightarrow> map_of t' pk = Some r' \<Longrightarrow> col_version r \<le> col_version r'"
  by (auto simp: version_step_def sql_incr_def split: if_splits)

lemma sqLiteStore_Set_table:
  assumes "sqLiteStore_Set s now kind key value = Inr (res, s')"
  shows "zestor_kv s' = zestor_kv s \<or>
         (\<exists>enc. map_of (zestor_kv s) (kind, key) = None \<and> zestor_kv s' = insert_row now (kind, key) enc (zestor_kv s)) \<or>
         (\<exists>enc r. map_of (zestor_kv s) (kind, key) = Some r \<and> col_value r \<noteq> enc \<and>
                  zestor_kv s' = update_row now (kind, key) enc (zestor_kv s))"
proof (cases "sq_closed s")
  case True
  with assms show ?thesis by (simp add: sqLiteStore_Set_def)
next
  case op: False
  show ?thesis
  proof (cases "Marshal (codec s) value")
    case (Inl err)
    with assms op show ?thesis by (simp add: sqLiteStore_Set_def)
  next
    case (Inr enc)
    show ?thesis
    proof (cases "db_closed s")
      case True
      with assms op Inr show ?thesis by (simp add: sqLiteStore_Set_def)
    next
      case db: False
      show ?thesis
      proof (cases "map_of (zestor_kv s) (kind, key)")
        case None
        with assms op Inr db obtain s1 where
          "publish (s\<lparr>zestor_kv := insert_row now (kind, key) enc (zestor_kv s)\<rparr>) kind
             \<lparr>Kind = kind, Name = key, EventType = EventTypeCreate, Object = value\<rparr> = Inr s'"
          by (simp add: sqLiteStore_Set_def split: sum.splits)
        from publish_table[OF this] None show ?thesis by auto
      next
        case (Some r)
        show ?thesis
        proof (cases "col_value r = enc")
          case True
          with assms op Inr db Some show ?thesis by (simp add: sqLiteStore_Set_def)
        next
          case False
          with assms op Inr db Some have
            "publish (s\<lparr>zestor_kv := update_row now (kind, key) enc (zestor_kv s)\<rparr>) kind
               \<lparr>Kind = kind, Name = key, EventType = EventTypeUpdate, Object = value\<rparr> = Inr s'"
            by (simp add: sqLiteStore_Set_def split: sum.splits)
          from publish_table[OF this] Some False show ?thesis by auto
        qed
      qed
    qed
  qed
qed

lemma sqLiteStore_Set_version:
  "sqLiteStore_Set s now kind key value = Inr (res, s') \<Longrightarrow> version_step (zestor_kv s) (zestor_kv s') pk"
  using sqLiteStore_Set_table[of s now kind key "value" res s']
  by (auto simp: version_step_same version_step_insert version_step_update)


lemma version_step_cong_left: "map_of t1 pk = map_of t pk \<Longrightarrow> version_step t1 t' pk = version_step t t' pk"
  by (simp add: version_step_def)

lemma version_step_cong_right: "map_of t1 pk = map_of t' pk \<Longrightarrow> version_step t t1 pk = version_step t t' pk"
  by (simp add: version_step_def split: option.splits)

lemma sqLiteStore_SetFn_table:
  assumes "sqLiteStore_SetFn s now kind key fn = Inr (res, s')"
  shows "zestor_kv s' = zestor_kv s \<or>
         (\<exists>enc r. map_of (zestor_kv s) (kind, key) = Some r \<and> col_value r \<noteq> enc \<and>
                  zestor_kv s' = update_row now (kind, key) enc (zestor_kv s))"
proof (cases "sq_closed s \<or> db_closed s")
  case True
  with assms show ?thesis by (auto simp: sqLiteStore_SetFn_def split: if_splits)
next
  case op: False
  show ?thesis
  proof (cases "map_of (zestor_kv s) (kind, key)")
    case None
    with assms op show ?thesis by (simp add: sqLiteStore_SetFn_def)
  next
    case (Some r)
    show ?thesis
    proof (cases "Unmarshal (codec s) (col_value r)")
      case (Inl e)
      with assms op Some show ?thesis by (simp add: sqLiteStore_SetFn_def)
    next
      case cur: (Inr cur)
      show ?thesis
      proof (cases "fn cur")
        case (Inl e)
        with assms op Some cur show ?thesis by (simp add: sqLiteStore_SetFn_def)
      next
        case nv: (Inr nv)
        show ?thesis
        proof (cases "Marshal (codec s) nv")
          case (Inl e)
          with assms op Some cur nv show ?thesis by (simp add: sqLiteStore_SetFn_def)
        next
          case enc: (Inr newBytes)
          show ?thesis
          proof (cases "col_value r = newBytes")
            case True
            with assms op Some cur nv enc show ?thesis by (simp add: sqLiteStore_SetFn_def)
          next
            case False
            with assms op Some cur nv enc have
              "publish (s\<lparr>zestor_kv := update_row now (kind, key) newBytes (zestor_kv s)\<rparr>) kind
                 \<lparr>Kind = kind, Name = key, EventType = EventTypeUpdate, Object = nv\<rparr> = Inr s'"
              by (simp add: sqLiteStore_SetFn_def split: sum.splits)
            from publish_table[OF this] Some False show ?thesis by auto
          qed
        qed
      qed
    qed
  qed
qed

lemma sqLiteStore_SetFn_version:
  "sqLiteStore_SetFn s now kind key fn = Inr (res, s') \<Longrightarrow> version_step (zestor_kv s) (zestor_kv s') pk"
  using sqLiteStore_SetFn_table[of s now kind key fn res s']
  by (auto simp: version_step_same version_step_update)

lemma setAll_rows_step:
  "setAll_rows c now kind ex t cr up vs = Inr (t', cr', up') \<Longrightarrow> distinct (map fst vs) \<Longrightarrow>
   (if fst pk = kind \<and> snd pk \<in> fst ` set vs then version_step t t' pk else map_of t' pk = map_of t pk)"
proof (induction vs arbitrary: t cr up)
  case Nil
  then show ?case by simp
next
  case (Cons kv vs)
  obtain k v where kv: "kv = (k, v)" by (cases kv)
  from Cons.prems(1) kv obtain enc where enc: "Marshal c v = Inr enc"
    by (cases "Marshal c v") simp_all
  let ?t1 = "upsert_row now (kind, k) enc t"
  have "\<exists>cr1 up1. setAll_rows c now kind ex ?t1 cr1 up1 vs = Inr (t', cr', up')"
  proof (cases "k \<in> set ex")
    case True
    with Cons.prems(1) kv enc have "setAll_rows c now kind ex ?t1 cr (AList.update k v up) vs = Inr (t', cr', up')"
      by simp
    then show ?thesis by blast
  next
    case False
    with Cons.prems(1) kv enc have "setAll_rows c now kind ex ?t1 (AList.update k v cr) up vs = Inr (t', cr', up')"
      by simp
    then show ?thesis by blast
  qed
  then obtain cr1 up1 where rec: "setAll_rows c now kind ex ?t1 cr1 up1 vs = Inr (t', cr', up')"
    by blast
  from Cons.prems(2) kv have d: "distinct (map fst vs)" and k: "k \<notin> fst ` set vs" by auto
  note IH = Cons.IH[OF rec d]
  show ?case
  proof (cases "pk = (kind, k)")
    case True
    with IH k have "map_of t' pk = map_of ?t1 pk" by simp
    then have "version_step t t' pk = version_step t ?t1 pk" by (rule version_step_cong_right)
    with True kv show ?thesis by (simp add: version_step_upsert)
  next
    case False
    then have same: "map_of ?t1 pk = map_of t pk" by (simp add: map_of_upsert_row)
    show ?thesis
    proof (cases "fst pk = kind \<and> snd pk \<in> fst ` set vs")
      case True
      with IH have "version_step ?t1 t' pk" by simp
      with version_step_cong_left[OF same, of t'] True kv show ?thesis by simp
    next
      case F2: False
      with IH have m: "map_of t' pk = map_of ?t1 pk" by simp
      from F2 False kv have n: "\<not> (fst pk = kind \<and> snd pk \<in> fst ` set (kv # vs))"
        by (cases pk) auto
      show ?thesis unfolding if_not_P[OF n] using m same by simp
    qed
  qed
qed


lemma sqLiteStore_SetAll_version:
  assumes "sqLiteStore_SetAll s now kind values = Inr (res, s')" "distinct (map fst values)"
  shows "version_step (zestor_kv s) (zestor_kv s') pk"
proof (cases "sq_closed s \<or> db_closed s")
  case True
  with assms(1) have "s' = s" by (auto simp: sqLiteStore_SetAll_def split: if_splits)
  then show ?thesis by (simp add: version_step_same)
next
  case False
  show ?thesis
  proof (cases "setAll_rows (codec s) now kind (map fst (kind_rows (zestor_kv s) kind)) (zestor_kv s) [] [] values")
    case (Inl err)
    with assms(1) False have "s' = s" by (auto simp: sqLiteStore_SetAll_def Let_def)
    then show ?thesis by (simp add: version_step_same)
  next
    case (Inr x)
    then obtain t cr up where x: "x = (t, cr, up)" by (cases x)
    with assms(1) False Inr have "zestor_kv s' = t"
      by (auto simp: sqLiteStore_SetAll_def Let_def split: sum.splits dest!: publish_all_table)
    moreover from setAll_rows_step[OF Inr[unfolded x] assms(2), of pk]
    have "version_step (zestor_kv s) t pk"
      by (auto simp: version_step_same split: if_splits)
    ultimately show ?thesis by simp
  qed
qed


lemma setAll_rows_lists:
  "\<forall>v \<in> snd ` set vs. \<exists>enc. Marshal c v = Inr enc \<Longrightarrow> distinct (map fst vs) \<Longrightarrow>
   fst ` set vs \<inter> fst ` set cr = {} \<Longrightarrow> fst ` set vs \<inter> fst ` set up = {} \<Longrightarrow>
   \<exists>t'. setAll_rows c now kind ex t cr up vs =
          Inr (t', cr @ filter (\<lambda>(k, v). k \<notin> set ex) vs, up @ filter (\<lambda>(k, v). k \<in> set ex) vs)"
proof (induction vs arbitrary: t cr up)
  case Nil
  then show ?case by simp
next
  case (Cons kv vs)
  obtain k v where kv: "kv = (k, v)" by (cases kv)
  from Cons.prems(1) kv obtain enc where enc: "Marshal c v = Inr enc" by auto
  from Cons.prems kv have m: "\<forall>v \<in> snd ` set vs. \<exists>enc. Marshal c v = Inr enc"
    and d: "distinct (map fst vs)" and k: "k \<notin> fst ` set vs" "k \<notin> fst ` set cr" "k \<notin> fst ` set up"
    and dj: "fst ` set vs \<inter> fst ` set cr = {}" "fst ` set vs \<inter> fst ` set up = {}"
    by auto
  let ?t1 = "upsert_row now (kind, k) enc t"
  show ?case
  proof (cases "k \<in> set ex")
    case True
    have "\<exists>t'. setAll_rows c now kind ex ?t1 cr (up @ [(k, v)]) vs =
          Inr (t', cr @ filter (\<lambda>(k, v). k \<notin> set ex) vs, (up @ [(k, v)]) @ filter (\<lambda>(k, v). k \<in> set ex) vs)"
      using m d k dj by (intro Cons.IH) auto
    with True kv enc k show ?thesis by (simp add: update_absent)
  next
    case False
    have "\<exists>t'. setAll_rows c now kind ex ?t1 (cr @ [(k, v)]) up vs =
          Inr (t', (cr @ [(k, v)]) @ filter (\<lambda>(k, v). k \<notin> set ex) vs, up @ filter (\<lambda>(k, v). k \<in> set ex) vs)"
      using m d k dj by (intro Cons.IH) auto
    with False kv enc k show ?thesis by (simp add: update_absent)
  qed
qed

lemma setAll_rows_values:
  "setAll_rows c now kind ex t cr up vs = Inr (t', cr', up') \<Longrightarrow> distinct (map fst vs) \<Longrightarrow> (k, v) \<in> set vs \<Longrightarrow>
   \<exists>r. map_of t' (kind, k) = Some r \<and> Marshal c v = Inr (col_value r)"
proof (induction vs arbitrary: t cr up)
  case Nil
  then show ?case by simp
next
  case (Cons kv vs)
  obtain k0 v0 where kv: "kv = (k0, v0)" by (cases kv)
  from Cons.prems(1) kv obtain enc where enc: "Marshal c v0 = Inr enc"
    by (cases "Marshal c v0") simp_all
  let ?t1 = "upsert_row now (kind, k0) enc t"
  have "\<exists>cr1 up1. setAll_rows c now kind ex ?t1 cr1 up1 vs = Inr (t', cr', up')"
  proof (cases "k0 \<in> set ex")
    case True
    with Cons.prems(1) kv enc have "setAll_rows c now kind ex ?t1 cr (AList.update k0 v0 up) vs = Inr (t', cr', up')"
      by simp
    then show ?thesis by blast
  next
    case False
    with Cons.prems(1) kv enc have "setAll_rows c now kind ex ?t1 (AList.update k0 v0 cr) up vs = Inr (t', cr', up')"
      by simp
    then show ?thesis by blast
  qed
  then obtain cr1 up1 where rec: "setAll_rows c now kind ex ?t1 cr1 up1 vs = Inr (t', cr', up')"
    by blast
  from Cons.prems(2) kv have d: "distinct (map fst vs)" and k0: "k0 \<notin> fst ` set vs" by auto
  show ?case
  proof (cases "(k, v) \<in> set vs")
    case True
    from Cons.IH[OF rec d True] show ?thesis .
  next
    case False
    with Cons.prems(3) kv have e: "k = k0" "v = v0" by auto
    from setAll_rows_step[OF rec d, of "(kind, k0)"] k0
    have "map_of t' (kind, k0) = map_of ?t1 (kind, k0)" by simp
    then show ?thesis using e enc by (simp add: map_of_upsert_row split: option.splits)
  qed
qed

lemma sqLiteStore_SetAll_effect:
  assumes "sq_inv q" "\<not> sq_closed q" "distinct (map fst values)"
    and "\<forall>v \<in> snd ` set values. \<exists>enc. Marshal (codec q) v = Inr enc"
  shows "\<exists>q'. sqLiteStore_SetAll q now kind values = Inr (None, q') \<and>
           (\<forall>(k, v) \<in> set values. \<exists>r. map_of (zestor_kv q') (kind, k) = Some r \<and> Marshal (codec q) v = Inr (col_value r)) \<and>
           sq_chans q' = deliver_all (kind_subs q kind)
              (map (mkEvent kind EventTypeCreate) (filter (\<lambda>(k, v). map_of (zestor_kv q) (kind, k) = None) values) @
               map (mkEvent kind EventTypeUpdate) (filter (\<lambda>(k, v). map_of (zestor_kv q) (kind, k) \<noteq> None) values))
              (sq_chans q)"
proof -
  let ?ex = "map fst (kind_rows (zestor_kv q) kind)"
  let ?cr = "filter (\<lambda>(k, v). map_of (zestor_kv q) (kind, k) = None) values"
  let ?up = "filter (\<lambda>(k, v). map_of (zestor_kv q) (kind, k) \<noteq> None) values"
  have db: "\<not> db_closed q" using assms(1,2) by (simp add: sq_inv_def)
  have f: "filter (\<lambda>(k, v). k \<notin> set ?ex) values = ?cr" "filter (\<lambda>(k, v). k \<in> set ?ex) values = ?up"
    using existingKeys_iff[of _ "zestor_kv q" kind] by (auto intro!: filter_cong)
  from setAll_rows_lists[OF assms(4,3), of "[]" "[]" now kind ?ex "zestor_kv q"] obtain t' where
    t': "setAll_rows (codec q) now kind ?ex (zestor_kv q) [] [] values = Inr (t', ?cr, ?up)"
    unfolding f by auto
  let ?evs = "map (mkEvent kind EventTypeCreate) ?cr @ map (mkEvent kind EventTypeUpdate) ?up"
  let ?q' = "q\<lparr>zestor_kv := t', sq_chans := deliver_all (kind_subs q kind) ?evs (sq_chans q)\<rparr>"
  have "publish_all (q\<lparr>zestor_kv := t'\<rparr>) kind ?evs = Inr ?q'"
    using publish_all_ok[of "q\<lparr>zestor_kv := t'\<rparr>" kind ?evs] sq_regs[OF assms(1), of kind] by simp
  with t' db assms(2) have 1: "sqLiteStore_SetAll q now kind values = Inr (None, ?q')"
    by (simp add: sqLiteStore_SetAll_def Let_def)
  have 2: "\<forall>(k, v) \<in> set values. \<exists>r. map_of (zestor_kv ?q') (kind, k) = Some r \<and> Marshal (codec q) v = Inr (col_value r)"
    using setAll_rows_values[OF t' assms(3)] by auto
  from 1 2 show ?thesis by (intro exI[of _ ?q']) simp
qed

lemma written_row_update:
  "col_value r \<noteq> enc \<Longrightarrow>
   r\<lparr>col_value := enc, col_version := sql_incr (col_version r), col_updated_at := now\<rparr> = written_row now enc (Some r)"
  by (simp add: written_row_def sql_incr_def)

lemma written_row_upsert:
  "map_of (upsert_row now pk enc t) pk = Some (written_row now enc (map_of t pk))"
  by (cases "map_of t pk") (auto simp: map_of_upsert_row written_row_def sql_incr_def)

lemma sqLiteStore_Set_written:
  assumes "sq_inv s" "\<not> sq_closed s" "Marshal (codec s) v = Inr enc"
  shows "\<exists>s'. sqLiteStore_Set s now kind key v = Inr ((map_of (zestor_kv s) (kind, key) = None, None), s') \<and>
           map_of (zestor_kv s') (kind, key) = Some (written_row now enc (map_of (zestor_kv s) (kind, key))) \<and>
           (\<forall>pk. pk \<noteq> (kind, key) \<longrightarrow> map_of (zestor_kv s') pk = map_of (zestor_kv s) pk)"
proof (cases "map_of (zestor_kv s) (kind, key)")
  case None
  with sqLiteStore_Set_effect[OF assms, of now kind key] show ?thesis
    by (simp add: map_of_insert_row written_row_def)
next
  case (Some r)
  show ?thesis
  proof (cases "col_value r = enc")
    case True
    with Some sqLiteStore_Set_effect[OF assms, of now kind key] show ?thesis
      by (simp add: written_row_def)
  next
    case False
    with Some sqLiteStore_Set_effect[OF assms, of now kind key] show ?thesis
      by (simp add: map_of_update_row written_row_update)
  qed
qed

lemma sqLiteStore_SetFn_written:
  assumes "sq_inv s" "\<not> sq_closed s" "map_of (zestor_kv s) (kind, key) = Some r"
    and "Unmarshal (codec s) (col_value r) = Inr cur" "fn cur = Inr nv" "Marshal (codec s) nv = Inr enc"
  shows "\<exists>s'. sqLiteStore_SetFn s now kind key fn = Inr ((False, None), s') \<and>
           map_of (zestor_kv s') (kind, key) = Some (written_row now enc (Some r)) \<and>
           (\<forall>pk. pk \<noteq> (kind, key) \<longrightarrow> map_of (zestor_kv s') pk = map_of (zestor_kv s) pk)"
proof (cases "col_value r = enc")
  case True
  with sqLiteStore_SetFn_effect[where fn=fn and cur=cur and nv=nv and now=now, OF assms] assms(3) show ?thesis
    by (simp add: written_row_def)
next
  case False
  with sqLiteStore_SetFn_effect[where fn=fn and cur=cur and nv=nv and now=now, OF assms] assms(3) show ?thesis
    by (simp add: map_of_update_row written_row_update)
qed

lemma setAll_rows_written:
  "setAll_rows c now kind ex t cr up vs = Inr (t', cr', up') \<Longrightarrow> distinct (map fst vs) \<Longrightarrow> (k, v) \<in> set vs \<Longrightarrow>
   \<exists>enc. Marshal c v = Inr enc \<and> map_of t' (kind, k) = Some (written_row now enc (map_of t (kind, k)))"
proof (induction vs arbitrary: t cr up)
  case Nil
  then show ?case by simp
next
  case (Cons kv vs)
  obtain k0 v0 where kv: "kv = (k0, v0)" by (cases kv)
  from Cons.prems(1) kv obtain enc where enc: "Marshal c v0 = Inr enc"
    by (cases "Marshal c v0") simp_all
  let ?t1 = "upsert_row now (kind, k0) enc t"
  have "\<exists>cr1 up1. setAll_rows c now kind ex ?t1 cr1 up1 vs = Inr (t', cr', up')"
  proof (cases "k0 \<in> set ex")
    case True
    with Cons.prems(1) kv enc have "setAll_rows c now kind ex ?t1 cr (AList.update k0 v0 up) vs = Inr (t', cr', up')"
      by simp
    then show ?thesis by blast
  next
    case False
    with Cons.prems(1) kv enc have "setAll_rows c now kind ex ?t1 (AList.update k0 v0 cr) up vs = Inr (t', cr', up')"
      by simp
    then show ?thesis by blast
  qed
  then obtain cr1 up1 where rec: "setAll_rows c now kind ex ?t1 cr1 up1 vs = Inr (t', cr', up')"
    by blast
  from Cons.prems(2) kv have d: "distinct (map fst vs)" and k0: "k0 \<notin> fst ` set vs" by auto
  show ?case
  proof (cases "(k, v) \<in> set vs")
    case True
    with k0 have ne: "k \<noteq> k0" by force
    from Cons.IH[OF rec d True] obtain e where e: "Marshal c v = Inr e"
      "map_of t' (kind, k) = Some (written_row now e (map_of ?t1 (kind, k)))" by blast
    from ne have "map_of ?t1 (kind, k) = map_of t (kind, k)" by (simp add: map_of_upsert_row)
    with e show ?thesis by simp
  next
    case False
    with Cons.prems(3) kv have e: "k = k0" "v = v0" by auto
    from setAll_rows_step[OF rec d, of "(kind, k0)"] k0
    have "map_of t' (kind, k0) = map_of ?t1 (kind, k0)" by simp
    then show ?thesis using e enc by (simp add: written_row_upsert)
  qed
qed

lemma sqLiteStore_SetAll_written:
  assumes "sq_inv s" "\<not> sq_closed s" "distinct (map fst values)"
    and "\<forall>v \<in> snd ` set values. \<exists>enc. Marshal (codec s) v = Inr enc"
  shows "\<exists>s'. sqLiteStore_SetAll s now kind values = Inr (None, s') \<and>
           (\<forall>(k, v) \<in> set values. \<exists>enc. Marshal (codec s) v = Inr enc \<and>
              map_of (zestor_kv s') (kind, k) = Some (written_row now enc (map_of (zestor_kv s) (kind, k)))) \<and>
           (\<forall>pk. \<not> (fst pk = kind \<and> snd pk \<in> fst ` set values) \<longrightarrow>
              map_of (zestor_kv s') pk = map_of (zestor_kv s) pk)"
proof -
  let ?ex = "map fst (kind_rows (zestor_kv s) kind)"
  from sqLiteStore_SetAll_effect[OF assms, of now kind] obtain s' where
    s': "sqLiteStore_SetAll s now kind values = Inr (None, s')" by blast
  have op: "\<not> db_closed s" using assms(1,2) by (simp add: sq_inv_def)
  obtain t' cr up where r: "setAll_rows (codec s) now kind ?ex (zestor_kv s) [] [] values = Inr (t', cr, up)"
    and t': "zestor_kv s' = t'"
    using s' assms(2) op
    by (auto simp: sqLiteStore_SetAll_def Let_def split: sum.splits dest!: publish_all_table)
  have 1: "\<forall>(k, v) \<in> set values. \<exists>enc. Marshal (codec s) v = Inr enc \<and>
              map_of (zestor_kv s') (kind, k) = Some (written_row now enc (map_of (zestor_kv s) (kind, k)))"
    unfolding t' using setAll_rows_written[OF r assms(3)] by blast
  have 2: "\<forall>pk. \<not> (fst pk = kind \<and> snd pk \<in> fst ` set values) \<longrightarrow>
              map_of (zestor_kv s') pk = map_of (zestor_kv s) pk"
    unfolding t' using setAll_rows_step[OF r assms(3)] by (auto split: if_splits)
  from s' 1 2 show ?thesis by blast
qed

lemma version_step_kept:
  assumes "version_step t t' pk" "map_of t pk = Some r"
  shows "\<exists>r'. map_of t' pk = Some r' \<and> col_version r \<le> col_version r'"
proof -
  from assms obtain r' where r': "map_of t' pk = Some r'"
    by (cases "map_of t' pk") (simp_all add: version_step_def)
  with version_step_never_decreases[OF assms(1,2) r'] show ?thesis by simp
qed

text \<open>
  C4 (as amended). Durable engine, on an open store with a sound registry. A \<open>Set\<close>
  whose value serializes, a \<open>SetFn\<close> on a stored row whose transform succeeds and
  serializes, and a \<open>SetAll\<close> of values that all serialize (a Go map, so its keys are
  distinct) succeed, and each row they write is \<open>written_row\<close> of the bytes they were
  given and of the row stored before: a row that was not there starts at version 1; a
  row that holds the same bytes keeps its version and its timestamp; a row that holds
  other bytes takes the new bytes, and its version goes up by exactly one as long as it
  is a 64-bit integer. Every other row is left as it is. And on every return of the
  three, failing ones included, a row that was there is still there with a version that
  is not lower. (\<open>Delete\<close> ends a row; a later insert under the same key is a new row,
  at version 1.)
\<close>

theorem version_monotone:
  assumes "sq_inv s" "\<not> sq_closed s" "distinct (map fst values)"
  shows "(\<forall>enc. Marshal (codec s) v = Inr enc \<longrightarrow>
            (\<exists>s'. sqLiteStore_Set s now kind key v = Inr ((map_of (zestor_kv s) (kind, key) = None, None), s') \<and>
               map_of (zestor_kv s') (kind, key) = Some (written_row now enc (map_of (zestor_kv s) (kind, key))) \<and>
               (\<forall>pk. pk \<noteq> (kind, key) \<longrightarrow> map_of (zestor_kv s') pk = map_of (zestor_kv s) pk))) \<and>
         (\<forall>r cur nv enc.
            map_of (zestor_kv s) (kind, key) = Some r \<and> Unmarshal (codec s) (col_value r) = Inr cur \<and>
            fn cur = Inr nv \<and> Marshal (codec s) nv = Inr enc \<longrightarrow>
            (\<exists>s'. sqLiteStore_SetFn s now kind key fn = Inr ((False, None), s') \<and>
               map_of (zestor_kv s') (kind, key) = Some (written_row now enc (Some r)) \<and>
               (\<forall>pk. pk \<noteq> (kind, key) \<longrightarrow> map_of (zestor_kv s') pk = map_of (zestor_kv s) pk))) \<and>
         ((\<forall>v \<in> snd ` set values. \<exists>enc. Marshal (codec s) v = Inr enc) \<longrightarrow>
            (\<exists>s'. sqLiteStore_SetAll s now kind values = Inr (None, s') \<and>
               (\<forall>(k, v) \<in> set values. \<exists>enc. Marshal (codec s) v = Inr enc \<and>
                  map_of (zestor_kv s') (kind, k) = Some (written_row now enc (map_of (zestor_kv s) (kind, k)))) \<and>
               (\<forall>pk. \<not> (fst pk = kind \<and> snd pk \<in> fst ` set values) \<longrightarrow>
                  map_of (zestor_kv s') pk = map_of (zestor_kv s) pk))) \<and>
         (\<forall>res s' pk r.
            (sqLiteStore_Set s now kind key v = Inr (res, s') \<or>
             sqLiteStore_SetFn s now kind key fn = Inr (res, s') \<or>
             sqLiteStore_SetAll s now kind values = Inr (snd res, s')) \<and>
            map_of (zestor_kv s) pk = Some r \<longrightarrow>
            (\<exists>r'. map_of (zestor_kv s') pk = Some r' \<and> col_version r \<le> col_version r'))"
proof (intro conjI allI impI)
  fix enc
  assume "Marshal (codec s) v = Inr enc"
  with assms(1,2) show "\<exists>s'. sqLiteStore_Set s now kind key v = Inr ((map_of (zestor_kv s) (kind, key) = None, None), s') \<and>
               map_of (zestor_kv s') (kind, key) = Some (written_row now enc (map_of (zestor_kv s) (kind, key))) \<and>
               (\<forall>pk. pk \<noteq> (kind, key) \<longrightarrow> map_of (zestor_kv s') pk = map_of (zestor_kv s) pk)"
    by (rule sqLiteStore_Set_written)
next
  fix r cur nv enc
  assume h: "map_of (zestor_kv s) (kind, key) = Some r \<and> Unmarshal (codec s) (col_value r) = Inr cur \<and>
            fn cur = Inr nv \<and> Marshal (codec s) nv = Inr enc"
  show "\<exists>s'. sqLiteStore_SetFn s now kind key fn = Inr ((False, None), s') \<and>
               map_of (zestor_kv s') (kind, key) = Some (written_row now enc (Some r)) \<and>
               (\<forall>pk. pk \<noteq> (kind, key) \<longrightarrow> map_of (zestor_kv s') pk = map_of (zestor_kv s) pk)"
    using sqLiteStore_SetFn_written[where fn=fn and cur=cur and nv=nv and r=r and enc=enc, OF assms(1,2)] h
    by blast
next
  assume "\<forall>v \<in> snd ` set values. \<exists>enc. Marshal (codec s) v = Inr enc"
  with assms show "\<exists>s'. sqLiteStore_SetAll s now kind values = Inr (None, s') \<and>
               (\<forall>(k, v) \<in> set values. \<exists>enc. Marshal (codec s) v = Inr enc \<and>
                  map_of (zestor_kv s') (kind, k) = Some (written_row now enc (map_of (zestor_kv s) (kind, k)))) \<and>
               (\<forall>pk. \<not> (fst pk = kind \<and> snd pk \<in> fst ` set values) \<longrightarrow>
                  map_of (zestor_kv s') pk = map_of (zestor_kv s) pk)"
    by (rule sqLiteStore_SetAll_written)
next
  fix res :: "bool \<times> error option" and s' pk r
  assume h: "(sqLiteStore_Set s now kind key v = Inr (res, s') \<or>
             sqLiteStore_SetFn s now kind key fn = Inr (res, s') \<or>
             sqLiteStore_SetAll s now kind values = Inr (snd res, s')) \<and>
            map_of (zestor_kv s) pk = Some r"
  then have "version_step (zestor_kv s) (zestor_kv s') pk"
    using sqLiteStore_Set_version[of s now kind key v res s' pk]
      sqLiteStore_SetFn_version[of s now kind key fn res s' pk]
      sqLiteStore_SetAll_version[OF _ assms(3), of s now kind "snd res" s' pk]
    by blast
  with h show "\<exists>r'. map_of (zestor_kv s') pk = Some r' \<and> col_version r \<le> col_version r'"
    using version_step_kept by blast
qed

theorem version_monotone_witness:
  "sq_inv ex_sq \<and> \<not> sq_closed ex_sq \<and> distinct (map fst [(''a'', ''y''), (''b'', ''z'')]) \<and>
   (\<exists>s'. sqLiteStore_Set ex_sq ''t1'' ''users'' ''a'' ''y'' = Inr ((False, None), s') \<and>
      map_of (zestor_kv s') (''users'', ''a'') = Some \<lparr>col_value = ''y'', col_version = 2, col_updated_at = ''t1''\<rparr>) \<and>
   (\<exists>s'. sqLiteStore_Set ex_sq ''t1'' ''users'' ''a'' ''x'' = Inr ((False, None), s') \<and>
      map_of (zestor_kv s') (''users'', ''a'') = Some \<lparr>col_value = ''x'', col_version = 1, col_updated_at = ''t0''\<rparr>) \<and>
   (\<exists>s'. sqLiteStore_Set ex_sq ''t1'' ''users'' ''b'' ''z'' = Inr ((True, None), s') \<and>
      map_of (zestor_kv s') (''users'', ''b'') = Some \<lparr>col_value = ''z'', col_version = 1, col_updated_at = ''t1''\<rparr> \<and>
      map_of (zestor_kv s') (''users'', ''a'') = Some \<lparr>col_value = ''x'', col_version = 1, col_updated_at = ''t0''\<rparr>) \<and>
   (\<exists>s'. sqLiteStore_SetFn ex_sq ''t1'' ''users'' ''a'' (\<lambda>v. Inr (v @ ''!'')) = Inr ((False, None), s') \<and>
      map_of (zestor_kv s') (''users'', ''a'') = Some \<lparr>col_value = ''x!'', col_version = 2, col_updated_at = ''t1''\<rparr>) \<and>
   (\<exists>s'. sqLiteStore_SetAll ex_sq ''t1'' ''users'' [(''a'', ''y''), (''b'', ''z'')] = Inr (None, s') \<and>
      map_of (zestor_kv s') (''users'', ''a'') = Some \<lparr>col_value = ''y'', col_version = 2, col_updated_at = ''t1''\<rparr> \<and>
      map_of (zestor_kv s') (''users'', ''b'') = Some \<lparr>col_value = ''z'', col_version = 1, col_updated_at = ''t1''\<rparr>)"
proof -
  let ?r = "\<lparr>col_value = ''x'', col_version = 1, col_updated_at = ''t0''\<rparr>"
  let ?vs = "[(''a'', ''y''), (''b'', ''z'')]"
  have h: "sq_inv ex_sq" "\<not> sq_closed ex_sq" "distinct (map fst ?vs)"
    by (simp_all add: ex_defs inv_eval)
  have row: "map_of (zestor_kv ex_sq) (''users'', ''a'') = Some ?r" "map_of (zestor_kv ex_sq) (''users'', ''b'') = None"
    "Unmarshal (codec ex_sq) (col_value ?r) = Inr ''x''" "Marshal (codec ex_sq) v = Inr v" for v
    by (simp_all add: ex_defs idCodec_def)
  have w: "written_row ''t1'' ''y'' (Some ?r) = \<lparr>col_value = ''y'', col_version = 2, col_updated_at = ''t1''\<rparr>"
    "written_row ''t1'' ''x'' (Some ?r) = ?r"
    "written_row ''t1'' ''z'' None = \<lparr>col_value = ''z'', col_version = 1, col_updated_at = ''t1''\<rparr>"
    "written_row ''t1'' ''x!'' (Some ?r) = \<lparr>col_value = ''x!'', col_version = 2, col_updated_at = ''t1''\<rparr>"
    by (simp_all add: written_row_def int64_def)
  note T = version_monotone[OF h]
  note setc = T[THEN conjunct1, rule_format]
  note fnc = T[THEN conjunct2, THEN conjunct1, rule_format]
  note allc = T[THEN conjunct2, THEN conjunct2, THEN conjunct1, THEN mp]
  from setc[of "''y''" "''y''" "''t1''" "''users''" "''a''"] row w
  have 1: "\<exists>s'. sqLiteStore_Set ex_sq ''t1'' ''users'' ''a'' ''y'' = Inr ((False, None), s') \<and>
      map_of (zestor_kv s') (''users'', ''a'') = Some \<lparr>col_value = ''y'', col_version = 2, col_updated_at = ''t1''\<rparr>"
    by auto
  from setc[of "''x''" "''x''" "''t1''" "''users''" "''a''"] row w
  have 2: "\<exists>s'. sqLiteStore_Set ex_sq ''t1'' ''users'' ''a'' ''x'' = Inr ((False, None), s') \<and>
      map_of (zestor_kv s') (''users'', ''a'') = Some \<lparr>col_value = ''x'', col_version = 1, col_updated_at = ''t0''\<rparr>"
    by auto
  from setc[of "''z''" "''z''" "''t1''" "''users''" "''b''"] row w
  have 3: "\<exists>s'. sqLiteStore_Set ex_sq ''t1'' ''users'' ''b'' ''z'' = Inr ((True, None), s') \<and>
      map_of (zestor_kv s') (''users'', ''b'') = Some \<lparr>col_value = ''z'', col_version = 1, col_updated_at = ''t1''\<rparr> \<and>
      map_of (zestor_kv s') (''users'', ''a'') = Some \<lparr>col_value = ''x'', col_version = 1, col_updated_at = ''t0''\<rparr>"
    by auto
  from fnc[of "''users''" "''a''" ?r "''x''" "\<lambda>v. Inr (v @ ''!'')" "''x!''" "''x!''" "''t1''"] row w
  have 4: "\<exists>s'. sqLiteStore_SetFn ex_sq ''t1'' ''users'' ''a'' (\<lambda>v. Inr (v @ ''!'')) = Inr ((False, None), s') \<and>
      map_of (zestor_kv s') (''users'', ''a'') = Some \<lparr>col_value = ''x!'', col_version = 2, col_updated_at = ''t1''\<rparr>"
    by auto
  have m: "\<forall>v \<in> snd ` set ?vs. \<exists>enc. Marshal (codec ex_sq) v = Inr enc" using row(4) by blast
  from allc[OF m] obtain s' where s':
    "sqLiteStore_SetAll ex_sq ''t1'' ''users'' ?vs = Inr (None, s')"
    "\<forall>(k, v) \<in> set ?vs. \<exists>enc. Marshal (codec ex_sq) v = Inr enc \<and>
        map_of (zestor_kv s') (''users'', k) = Some (written_row ''t1'' enc (map_of (zestor_kv ex_sq) (''users'', k)))"
    by blast
  from s'(2) row w have "map_of (zestor_kv s') (''users'', ''a'') = Some \<lparr>col_value = ''y'', col_version = 2, col_updated_at = ''t1''\<rparr>"
    "map_of (zestor_kv s') (''users'', ''b'') = Some \<lparr>col_value = ''z'', col_version = 1, col_updated_at = ''t1''\<rparr>"
    by auto
  with s'(1) have 5: "\<exists>s'. sqLiteStore_SetAll ex_sq ''t1'' ''users'' ?vs = Inr (None, s') \<and>
      map_of (zestor_kv s') (''users'', ''a'') = Some \<lparr>col_value = ''y'', col_version = 2, col_updated_at = ''t1''\<rparr> \<and>
      map_of (zestor_kv s') (''users'', ''b'') = Some \<lparr>col_value = ''z'', col_version = 1, col_updated_at = ''t1''\<rparr>"
    by blast
  from h 1 2 3 4 5 show ?thesis by blast
qed

text \<open>
  The claim as written fails at the end of the 64-bit range: a byte-changing write of a
  row at the largest INTEGER takes its version to \<open>2^63\<close>, which SQLite holds as a REAL,
  and the next byte-changing write leaves the version where it is.
\<close>

theorem version_monotone_counterexample:
  "sqLiteStore_Set ex_sq_max ''t1'' ''users'' ''a'' ''y'' =
     Inr ((False, None),
          ex_sq_max\<lparr>zestor_kv := [((''users'', ''a''),
                         \<lparr>col_value = ''y'', col_version = 9223372036854775808, col_updated_at = ''t1''\<rparr>)],
                    sq_chans := [\<lparr>buf = [\<lparr>Kind = ''users'', Name = ''a'', EventType = EventTypeUpdate, Object = ''y''\<rparr>],
                                  cap = 128, chan_closed = False\<rparr>]\<rparr>) \<and>
   sqLiteStore_Set
     (ex_sq_max\<lparr>zestor_kv := [((''users'', ''a''),
                         \<lparr>col_value = ''y'', col_version = 9223372036854775808, col_updated_at = ''t1''\<rparr>)],
                    sq_chans := [\<lparr>buf = [\<lparr>Kind = ''users'', Name = ''a'', EventType = EventTypeUpdate, Object = ''y''\<rparr>],
                                  cap = 128, chan_closed = False\<rparr>]\<rparr>) ''t2'' ''users'' ''a'' ''z'' =
     Inr ((False, None),
          ex_sq_max\<lparr>zestor_kv := [((''users'', ''a''),
                         \<lparr>col_value = ''z'', col_version = 9223372036854775808, col_updated_at = ''t2''\<rparr>)],
                    sq_chans := [\<lparr>buf = [\<lparr>Kind = ''users'', Name = ''a'', EventType = EventTypeUpdate, Object = ''y''\<rparr>,
                                         \<lparr>Kind = ''users'', Name = ''a'', EventType = EventTypeUpdate, Object = ''z''\<rparr>],
                                  cap = 128, chan_closed = False\<rparr>]\<rparr>)"
  by (simp add: sqLiteStore_Set_def ex_sq_max_def ex_sq_def sq_eval)

subsection \<open>SetFn on a missing key\<close>

lemma ensureKind_kinds:
  "kinds (ensureKind s kind) = (if map_of (kinds s) kind = None then kinds s @ [(kind, [])] else kinds s)"
  by (simp add: ensureKind_def Let_def)

lemma ensureKind_observable:
  "chans (ensureKind s kind) = chans s \<and>
   (\<forall>kd. kind_entries (ensureKind s kind) kd = kind_entries s kd) \<and>
   (\<forall>kd. kind_watchers (ensureKind s kind) kd = kind_watchers s kd) \<and>
   (map_of (kinds s) kind \<noteq> None \<and> map_of (watchers s) kind \<noteq> None \<longrightarrow> ensureKind s kind = s) \<and>
   memStore_GetAll (ensureKind s kind) =
     (if closed s then Inl ErrClosed
      else Inr (if map_of (kinds s) kind = None then kinds s @ [(kind, [])] else kinds s))"
  by (simp add: ensureKind_id memStore_GetAll_def ensureKind_kinds)

lemma memStore_SetFn_missing:
  "\<not> closed s \<Longrightarrow> map_of (kind_entries s kind) key = None \<Longrightarrow>
   memStore_SetFn s kind key fn = Inr ((False, Some ErrKeyNotFound), ensureKind s kind)"
  by (simp add: memStore_SetFn_def Let_def)

lemma sqLiteStore_SetFn_missing:
  "sq_inv q \<Longrightarrow> \<not> sq_closed q \<Longrightarrow> map_of (zestor_kv q) (kind, key) = None \<Longrightarrow>
   sqLiteStore_SetFn q now kind key fn = Inr ((False, Some ErrKeyNotFound), q)"
  by (simp add: sqLiteStore_SetFn_def sq_inv_def)

lemma sqLiteStore_SetFn_present:
  assumes "sq_inv q" "\<not> sq_closed q" "map_of (zestor_kv q) (kind, key) = Some r"
    and "Unmarshal (codec q) (col_value r) = Inr cur" "fn cur = Inr nv" "Marshal (codec q) nv = Inr newBytes"
  shows "if newBytes = col_value r then sqLiteStore_SetFn q now kind key fn = Inr ((False, None), q)
         else \<exists>q'. sqLiteStore_SetFn q now kind key fn = Inr ((False, None), q') \<and>
                map_of (zestor_kv q') (kind, key) =
                  Some \<lparr>col_value = newBytes,
                        col_version = (if int64 (col_version r) then col_version r + 1 else col_version r),
                        col_updated_at = now\<rparr> \<and>
                (\<forall>pk. pk \<noteq> (kind, key) \<longrightarrow> map_of (zestor_kv q') pk = map_of (zestor_kv q) pk) \<and>
                subs q' = subs q \<and>
                sq_chans q' = deliver_to (kind_subs q kind)
                   \<lparr>Kind = kind, Name = key, EventType = EventTypeUpdate, Object = nv\<rparr> (sq_chans q)"
proof (cases "newBytes = col_value r")
  case True
  then show ?thesis using sqLiteStore_SetFn_effect[where fn=fn and cur=cur and nv=nv and now=now, OF assms] by simp
next
  case False
  then show ?thesis using sqLiteStore_SetFn_effect[where fn=fn and cur=cur and nv=nv and now=now, OF assms] assms(3)
    by (simp add: map_of_update_row sql_incr_def)
qed

text \<open>
  C5 (as amended). \<open>SetFn\<close> on a missing key of an open store fails with the not-found
  error in both engines, writes no entry and delivers no event. The durable store is
  returned as it was. The in-memory store is returned after \<open>ensureKind\<close>: the entries
  and the watchers of every kind and all channels are as before, and the store is
  unchanged when the kind was registered, but a kind that was not registered now is,
  with no entries, as \<open>GetAll\<close> shows. For a row that exists in the durable store (key
  \<open>key'\<close>) and a transform whose result serializes: identical bytes return the store as
  it was; different bytes store them with the timestamp of the call and with the version
  one higher when it is a 64-bit integer (otherwise the version stays where it is),
  leave every other row alone and deliver one update event carrying the transform's
  result.
\<close>

theorem SetFn_missing_key:
  assumes "\<not> closed s" "map_of (kind_entries s kind) key = None" "sq_inv q" "\<not> sq_closed q"
  shows "memStore_SetFn s kind key fn = Inr ((False, Some ErrKeyNotFound), ensureKind s kind) \<and>
         chans (ensureKind s kind) = chans s \<and>
         (\<forall>kd. kind_entries (ensureKind s kind) kd = kind_entries s kd) \<and>
         (\<forall>kd. kind_watchers (ensureKind s kind) kd = kind_watchers s kd) \<and>
         (map_of (kinds s) kind \<noteq> None \<and> map_of (watchers s) kind \<noteq> None \<longrightarrow> ensureKind s kind = s) \<and>
         memStore_GetAll (ensureKind s kind) =
           Inr (if map_of (kinds s) kind = None then kinds s @ [(kind, [])] else kinds s) \<and>
         (map_of (zestor_kv q) (kind, key) = None \<longrightarrow>
            sqLiteStore_SetFn q now kind key fn = Inr ((False, Some ErrKeyNotFound), q)) \<and>
         (\<forall>r cur nv newBytes.
            map_of (zestor_kv q) (kind, key') = Some r \<and> Unmarshal (codec q) (col_value r) = Inr cur \<and>
            fn cur = Inr nv \<and> Marshal (codec q) nv = Inr newBytes \<longrightarrow>
            (if newBytes = col_value r then sqLiteStore_SetFn q now kind key' fn = Inr ((False, None), q)
             else \<exists>q'. sqLiteStore_SetFn q now kind key' fn = Inr ((False, None), q') \<and>
                map_of (zestor_kv q') (kind, key') =
                  Some \<lparr>col_value = newBytes,
                        col_version = (if int64 (col_version r) then col_version r + 1 else col_version r),
                        col_updated_at = now\<rparr> \<and>
                (\<forall>pk. pk \<noteq> (kind, key') \<longrightarrow> map_of (zestor_kv q') pk = map_of (zestor_kv q) pk) \<and>
                subs q' = subs q \<and>
                sq_chans q' = deliver_to (kind_subs q kind)
                   \<lparr>Kind = kind, Name = key', EventType = EventTypeUpdate, Object = nv\<rparr> (sq_chans q)))"
proof -
  have 1: "memStore_SetFn s kind key fn = Inr ((False, Some ErrKeyNotFound), ensureKind s kind)"
    using assms(1,2) by (rule memStore_SetFn_missing)
  have 2: "map_of (zestor_kv q) (kind, key) = None \<longrightarrow>
            sqLiteStore_SetFn q now kind key fn = Inr ((False, Some ErrKeyNotFound), q)"
    using assms(3,4) by (simp add: sqLiteStore_SetFn_missing)
  have 3: "\<forall>r cur nv newBytes.
            map_of (zestor_kv q) (kind, key') = Some r \<and> Unmarshal (codec q) (col_value r) = Inr cur \<and>
            fn cur = Inr nv \<and> Marshal (codec q) nv = Inr newBytes \<longrightarrow>
            (if newBytes = col_value r then sqLiteStore_SetFn q now kind key' fn = Inr ((False, None), q)
             else \<exists>q'. sqLiteStore_SetFn q now kind key' fn = Inr ((False, None), q') \<and>
                map_of (zestor_kv q') (kind, key') =
                  Some \<lparr>col_value = newBytes,
                        col_version = (if int64 (col_version r) then col_version r + 1 else col_version r),
                        col_updated_at = now\<rparr> \<and>
                (\<forall>pk. pk \<noteq> (kind, key') \<longrightarrow> map_of (zestor_kv q') pk = map_of (zestor_kv q) pk) \<and>
                subs q' = subs q \<and>
                sq_chans q' = deliver_to (kind_subs q kind)
                   \<lparr>Kind = kind, Name = key', EventType = EventTypeUpdate, Object = nv\<rparr> (sq_chans q))"
    using sqLiteStore_SetFn_present[where fn=fn and q=q and now=now, OF assms(3,4)] by blast
  from 1 2 3 ensureKind_observable[of s kind] assms(1) show ?thesis by simp
qed


theorem SetFn_missing_key_witness:
  "memStore_SetFn ex_mem ''users'' ''b'' (\<lambda>v. Inr (v @ ''!'')) = Inr ((False, Some ErrKeyNotFound), ex_mem) \<and>
   sqLiteStore_SetFn ex_sq ''t1'' ''users'' ''b'' (\<lambda>v. Inr (v @ ''!'')) = Inr ((False, Some ErrKeyNotFound), ex_sq) \<and>
   sqLiteStore_SetFn ex_sq ''t1'' ''users'' ''a'' Inr = Inr ((False, None), ex_sq) \<and>
   (\<exists>q'. sqLiteStore_SetFn ex_sq ''t1'' ''users'' ''a'' (\<lambda>v. Inr (v @ ''!'')) = Inr ((False, None), q') \<and>
      map_of (zestor_kv q') (''users'', ''a'') = Some \<lparr>col_value = ''x!'', col_version = 2, col_updated_at = ''t1''\<rparr> \<and>
      sq_chans q' = [\<lparr>buf = [\<lparr>Kind = ''users'', Name = ''a'', EventType = EventTypeUpdate, Object = ''x!''\<rparr>],
                      cap = 128, chan_closed = False\<rparr>])"
proof -
  let ?r = "\<lparr>col_value = ''x'', col_version = 1, col_updated_at = ''t0''\<rparr>"
  have h: "\<not> closed ex_mem" "map_of (kind_entries ex_mem ''users'') ''b'' = None"
    "sq_inv ex_sq" "\<not> sq_closed ex_sq"
    by (simp_all add: ex_defs mem_eval inv_eval)
  have reg: "map_of (kinds ex_mem) ''users'' \<noteq> None \<and> map_of (watchers ex_mem) ''users'' \<noteq> None"
    by (simp add: ex_defs)
  have row: "map_of (zestor_kv ex_sq) (''users'', ''b'') = None"
    "map_of (zestor_kv ex_sq) (''users'', ''a'') = Some ?r"
    "Unmarshal (codec ex_sq) (col_value ?r) = Inr ''x''"
    "Marshal (codec ex_sq) ''x!'' = Inr ''x!''" "Marshal (codec ex_sq) ''x'' = Inr ''x''"
    by (simp_all add: ex_defs idCodec_def)
  have d: "deliver_to (kind_subs ex_sq ''users'') ev (sq_chans ex_sq) = [\<lparr>buf = [ev], cap = 128, chan_closed = False\<rparr>]"
    for ev :: "string Event"
    by (simp add: ex_defs kind_subs_def deliver_eval)
  note T1 = SetFn_missing_key[OF h, of "\<lambda>v. Inr (v @ ''!'')" "''t1''" "''a''"]
  note T2 = SetFn_missing_key[OF h, of Inr "''t1''" "''a''"]
  from T1 reg have 1: "memStore_SetFn ex_mem ''users'' ''b'' (\<lambda>v. Inr (v @ ''!'')) = Inr ((False, Some ErrKeyNotFound), ex_mem)"
    by simp
  from T1 row(1) have 2: "sqLiteStore_SetFn ex_sq ''t1'' ''users'' ''b'' (\<lambda>v. Inr (v @ ''!'')) = Inr ((False, Some ErrKeyNotFound), ex_sq)"
    by blast
  note last = conjunct2[THEN conjunct2, THEN conjunct2, THEN conjunct2, THEN conjunct2, THEN conjunct2, THEN conjunct2]
  from T2[THEN last, rule_format, of ?r "''x''" "''x''" "''x''"] row
  have 3: "sqLiteStore_SetFn ex_sq ''t1'' ''users'' ''a'' Inr = Inr ((False, None), ex_sq)" by simp
  from T1[THEN last, rule_format, of ?r "''x''" "''x!''" "''x!''"] row d
  have 4: "\<exists>q'. sqLiteStore_SetFn ex_sq ''t1'' ''users'' ''a'' (\<lambda>v. Inr (v @ ''!'')) = Inr ((False, None), q') \<and>
      map_of (zestor_kv q') (''users'', ''a'') = Some \<lparr>col_value = ''x!'', col_version = 2, col_updated_at = ''t1''\<rparr> \<and>
      sq_chans q' = [\<lparr>buf = [\<lparr>Kind = ''users'', Name = ''a'', EventType = EventTypeUpdate, Object = ''x!''\<rparr>],
                      cap = 128, chan_closed = False\<rparr>]"
    by (auto simp: int64_def)
  from 1 2 3 4 show ?thesis by blast
qed

text \<open>
  The claim as written fails in the in-memory engine: on a new store the failed \<open>SetFn\<close>
  registers the kind, and \<open>GetAll\<close> returns one more (empty) kind than before.
\<close>

theorem SetFn_missing_key_counterexample:
  "memStore_SetFn (NewMemStore (=) noOptions) ''users'' ''a'' Inr =
     Inr ((False, Some ErrKeyNotFound),
          (NewMemStore (=) noOptions)\<lparr>kinds := [(''users'', [])], watchers := [(''users'', [])]\<rparr>) \<and>
   memStore_GetAll (NewMemStore (=) noOptions) = Inr [] \<and>
   memStore_GetAll ((NewMemStore (=) noOptions)\<lparr>kinds := [(''users'', [])], watchers := [(''users'', [])]\<rparr>) =
     Inr [(''users'', [])]"
  by (simp add: memStore_SetFn_def memStore_GetAll_def ex_defs mem_eval)

subsection \<open>Validation in the in-memory engine\<close>

lemma validate_values_rejects:
  "\<exists>v \<in> snd ` set values. fn v \<noteq> None \<Longrightarrow>
   \<exists>e v. v \<in> snd ` set values \<and> fn v = Some e \<and> validate_values fn values = Some e"
proof (induction "values")
  case Nil
  then show ?case by simp
next
  case (Cons kv vs)
  obtain k v where kv: "kv = (k, v)" by (cases kv)
  show ?case
  proof (cases "fn v")
    case (Some e)
    with kv show ?thesis by force
  next
    case None
    with Cons.prems kv have "\<exists>v \<in> snd ` set vs. fn v \<noteq> None" by auto
    from Cons.IH[OF this] obtain e v' where e: "v' \<in> snd ` set vs" "fn v' = Some e" "validate_values fn vs = Some e"
      by blast
    from e(1) have "v' \<in> snd ` set (kv # vs)" by auto
    moreover from None kv e(3) have "validate_values fn (kv # vs) = Some e" by simp
    ultimately show ?thesis using e(2) by blast
  qed
qed

lemma memStore_Set_rejected:
  "\<not> closed s \<Longrightarrow> validationFns s kind = Some fn \<Longrightarrow> fn value = Some err \<Longrightarrow>
   memStore_Set zero s kind key value = Inr ((False, Some err), ensureKind s kind)"
  by (simp add: memStore_Set_def Let_def)

lemma memStore_SetAll_rejected:
  "\<not> closed s \<Longrightarrow> validationFns s kind = Some fn \<Longrightarrow> validate_values fn values = Some e \<Longrightarrow>
   memStore_SetAll s kind values = Inr (Some e, ensureKind s kind)"
  by (simp add: memStore_SetAll_def Let_def)

text \<open>
  C8 (as amended). In the in-memory engine, when the validation function of the kind
  rejects the value passed to \<open>Set\<close>, or some value passed to \<open>SetAll\<close>, the call returns
  the validation error (for \<open>SetAll\<close>: the error of one of the rejected values) and the
  store after \<open>ensureKind\<close>: no key is written, whatever its place in the batch, and no
  event is delivered; the entries and watchers of every kind and all channels are as
  before, and the store is unchanged when the kind was registered, but a kind that was
  not registered now is, with no entries, as \<open>GetAll\<close> shows.
\<close>

theorem validation_rejects:
  assumes "\<not> closed s" "validationFns s kind = Some fn"
  shows "(fn value = Some err \<longrightarrow>
            memStore_Set zero s kind key value = Inr ((False, Some err), ensureKind s kind)) \<and>
         ((\<exists>v \<in> snd ` set values. fn v \<noteq> None) \<longrightarrow>
            (\<exists>e v. v \<in> snd ` set values \<and> fn v = Some e \<and>
                   memStore_SetAll s kind values = Inr (Some e, ensureKind s kind))) \<and>
         chans (ensureKind s kind) = chans s \<and>
         (\<forall>kd. kind_entries (ensureKind s kind) kd = kind_entries s kd) \<and>
         (\<forall>kd. kind_watchers (ensureKind s kind) kd = kind_watchers s kd) \<and>
         (map_of (kinds s) kind \<noteq> None \<and> map_of (watchers s) kind \<noteq> None \<longrightarrow> ensureKind s kind = s) \<and>
         memStore_GetAll (ensureKind s kind) =
           Inr (if map_of (kinds s) kind = None then kinds s @ [(kind, [])] else kinds s)"
proof -
  have 1: "fn value = Some err \<longrightarrow>
            memStore_Set zero s kind key value = Inr ((False, Some err), ensureKind s kind)"
    using assms by (simp add: memStore_Set_rejected)
  have 2: "(\<exists>v \<in> snd ` set values. fn v \<noteq> None) \<longrightarrow>
            (\<exists>e v. v \<in> snd ` set values \<and> fn v = Some e \<and>
                   memStore_SetAll s kind values = Inr (Some e, ensureKind s kind))"
  proof
    assume "\<exists>v \<in> snd ` set values. fn v \<noteq> None"
    from validate_values_rejects[OF this] obtain e v where
      "v \<in> snd ` set values" "fn v = Some e" "validate_values fn values = Some e" by blast
    with assms show "\<exists>e v. v \<in> snd ` set values \<and> fn v = Some e \<and>
                   memStore_SetAll s kind values = Inr (Some e, ensureKind s kind)"
      using memStore_SetAll_rejected by blast
  qed
  from 1 2 ensureKind_observable[of s kind] assms(1) show ?thesis by simp
qed

theorem validation_rejects_witness:
  "memStore_Set [] (ex_mem_watched\<lparr>validationFns := [''users'' \<mapsto> rejectEmpty]\<rparr>) ''users'' ''a'' [] =
     Inr ((False, Some (ErrOther ''empty value'')), ex_mem_watched\<lparr>validationFns := [''users'' \<mapsto> rejectEmpty]\<rparr>) \<and>
   memStore_SetAll (ex_mem_watched\<lparr>validationFns := [''users'' \<mapsto> rejectEmpty]\<rparr>) ''users''
       [(''a'', ''x''), (''b'', [])] =
     Inr (Some (ErrOther ''empty value''), ex_mem_watched\<lparr>validationFns := [''users'' \<mapsto> rejectEmpty]\<rparr>)"
proof -
  let ?s = "ex_mem_watched\<lparr>validationFns := [''users'' \<mapsto> rejectEmpty]\<rparr>"
  have h: "\<not> closed ?s" "validationFns ?s ''users'' = Some rejectEmpty" by (simp_all add: ex_defs)
  have reg: "map_of (kinds ?s) ''users'' \<noteq> None \<and> map_of (watchers ?s) ''users'' \<noteq> None"
    by (simp add: ex_defs)
  have rej: "rejectEmpty [] = Some (ErrOther ''empty value'')"
    "\<exists>v \<in> snd ` set [(''a'', ''x''), (''b'', [])]. rejectEmpty v \<noteq> None"
    by (simp_all add: rejectEmpty_def)
  note T = validation_rejects[OF h, of "[]" "ErrOther ''empty value''" "[]" "''a''" "[(''a'', ''x''), (''b'', [])]"]
  from T reg rej(1) have 1: "memStore_Set [] ?s ''users'' ''a'' [] = Inr ((False, Some (ErrOther ''empty value'')), ?s)"
    by simp
  from T rej(2) obtain e v where "v \<in> snd ` set [(''a'', ''x''), (''b'', [])]" "rejectEmpty v = Some e"
    "memStore_SetAll ?s ''users'' [(''a'', ''x''), (''b'', [])] = Inr (Some e, ensureKind ?s ''users'')"
    by blast
  moreover from this(1,2) have "e = ErrOther ''empty value''" by (auto simp: rejectEmpty_def split: if_splits)
  moreover from T reg have "ensureKind ?s ''users'' = ?s" by simp
  ultimately have 2: "memStore_SetAll ?s ''users'' [(''a'', ''x''), (''b'', [])] = Inr (Some (ErrOther ''empty value''), ?s)"
    by simp
  from 1 2 show ?thesis by simp
qed

text \<open>
  The claim as written fails: on a new store the rejected \<open>Set\<close> registers the kind, and
  \<open>GetAll\<close> returns one more (empty) kind than before.
\<close>

theorem validation_rejects_counterexample:
  "memStore_Set [] ex_mem_validating ''users'' ''a'' [] =
     Inr ((False, Some (ErrOther ''empty value'')),
          ex_mem_validating\<lparr>kinds := [(''users'', [])], watchers := [(''users'', [])]\<rparr>) \<and>
   memStore_GetAll ex_mem_validating = Inr [] \<and>
   memStore_GetAll (ex_mem_validating\<lparr>kinds := [(''users'', [])], watchers := [(''users'', [])]\<rparr>) =
     Inr [(''users'', [])]"
  by (simp add: memStore_Set_def memStore_GetAll_def ex_defs mem_eval)

subsection \<open>Events of SetAll\<close>

lemma mkEvent_eq: "\<lparr>Kind = kind, Name = key, EventType = t, Object = v\<rparr> = mkEvent kind t (key, v)"
  by (simp add: mkEvent_def)








subsection \<open>What the events carry\<close>

lemma memStore_Delete_absent:
  "\<not> closed s \<Longrightarrow> map_of (kind_entries s kind) key = None \<Longrightarrow>
   memStore_Delete zero s kind key = Inr ((False, zero, None), ensureKind s kind)"
  by (simp add: memStore_Delete_def Let_def)

lemma sqLiteStore_Delete_absent:
  "sq_inv q \<Longrightarrow> \<not> sq_closed q \<Longrightarrow> map_of (zestor_kv q) (kind, key) = None \<Longrightarrow>
   sqLiteStore_Delete zero q kind key = Inr ((False, zero, None), q)"
  by (simp add: sqLiteStore_Delete_def sq_inv_def)

lemma events_mem_Set:
  assumes "mem_inv s" "\<not> closed s"
  shows "(case validationFns s kind of None \<Rightarrow> None | Some vf \<Rightarrow> vf value) = None \<and>
      \<not> compareFn s (case map_of (kind_entries s kind) key of None \<Rightarrow> zero | Some p \<Rightarrow> p) value \<longrightarrow>
      (\<exists>s'. memStore_Set zero s kind key value = Inr ((map_of (kind_entries s kind) key = None, None), s') \<and>
            chans s' = deliver_to (map snd (kind_watchers s kind))
               (mkEvent kind (if map_of (kind_entries s kind) key = None then EventTypeCreate else EventTypeUpdate)
                  (key, value)) (chans s))"
  using assms by (simp add: memStore_Set_effect Let_def mkEvent_eq)

lemma events_mem_SetFn:
  assumes "mem_inv s" "\<not> closed s"
  shows "\<forall>prev nv. map_of (kind_entries s kind) key = Some prev \<and> fn prev = Inr nv \<longrightarrow>
      (\<exists>s'. memStore_SetFn s kind key fn = Inr ((False, None), s') \<and>
            chans s' = deliver_to (map snd (kind_watchers s kind)) (mkEvent kind EventTypeUpdate (key, nv)) (chans s))"
proof (intro allI impI)
  fix prev nv assume "map_of (kind_entries s kind) key = Some prev \<and> fn prev = Inr nv"
  with memStore_SetFn_effect[of s kind key prev fn nv, OF assms]
  show "\<exists>s'. memStore_SetFn s kind key fn = Inr ((False, None), s') \<and>
            chans s' = deliver_to (map snd (kind_watchers s kind)) (mkEvent kind EventTypeUpdate (key, nv)) (chans s)"
    by (simp add: mkEvent_eq)
qed

lemma events_mem_SetAll:
  assumes "mem_inv s" "\<not> closed s"
  shows "distinct (map fst values) \<and>
      (case validationFns s kind of None \<Rightarrow> None | Some vf \<Rightarrow> validate_values vf values) = None \<longrightarrow>
      (\<exists>s'. memStore_SetAll s kind values = Inr (None, s') \<and>
            chans s' = deliver_all (map snd (kind_watchers s kind))
               (map (mkEvent kind EventTypeCreate) (filter (\<lambda>(k, v). map_of (kind_entries s kind) k = None) values) @
                map (mkEvent kind EventTypeUpdate) (filter (\<lambda>(k, v). map_of (kind_entries s kind) k \<noteq> None) values))
               (chans s))"
  using assms by (simp add: memStore_SetAll_effect)

lemma events_mem_Delete:
  assumes "mem_inv s" "\<not> closed s"
  shows "\<forall>prev. map_of (kind_entries s kind) key = Some prev \<longrightarrow>
      (\<exists>s'. memStore_Delete zero s kind key = Inr ((True, prev, None), s') \<and>
            map_of (kind_entries s' kind) key = None \<and>
            chans s' = deliver_to (map snd (kind_watchers s kind)) (mkEvent kind EventTypeDelete (key, prev)) (chans s))"
  using assms by (simp add: memStore_Delete_effect mkEvent_eq kind_entries_def update_conv' delete_conv')

lemma events_mem_Delete_absent:
  assumes "\<not> closed s"
  shows "map_of (kind_entries s kind) key = None \<longrightarrow>
      (\<exists>s'. memStore_Delete zero s kind key = Inr ((False, zero, None), s') \<and> chans s' = chans s \<and>
            (\<forall>kd. kind_entries s' kd = kind_entries s kd))"
  using assms by (simp add: memStore_Delete_absent)

lemma events_sq_Set:
  assumes "sq_inv q" "\<not> sq_closed q"
  shows "\<forall>enc. Marshal (codec q) value = Inr enc \<and>
        map_option col_value (map_of (zestor_kv q) (kind, key)) \<noteq> Some enc \<longrightarrow>
      (\<exists>q'. sqLiteStore_Set q now kind key value = Inr ((map_of (zestor_kv q) (kind, key) = None, None), q') \<and>
            sq_chans q' = deliver_to (kind_subs q kind)
               (mkEvent kind (if map_of (zestor_kv q) (kind, key) = None then EventTypeCreate else EventTypeUpdate)
                  (key, value)) (sq_chans q))"
proof (intro allI impI)
  fix enc assume a: "Marshal (codec q) value = Inr enc \<and>
        map_option col_value (map_of (zestor_kv q) (kind, key)) \<noteq> Some enc"
  then have m: "Marshal (codec q) value = Inr enc" by simp
  from a sqLiteStore_Set_effect[OF assms m, of now kind key]
  show "\<exists>q'. sqLiteStore_Set q now kind key value = Inr ((map_of (zestor_kv q) (kind, key) = None, None), q') \<and>
            sq_chans q' = deliver_to (kind_subs q kind)
               (mkEvent kind (if map_of (zestor_kv q) (kind, key) = None then EventTypeCreate else EventTypeUpdate)
                  (key, value)) (sq_chans q)"
    by (cases "map_of (zestor_kv q) (kind, key)") (auto simp: mkEvent_eq)
qed

lemma events_sq_SetFn:
  assumes "sq_inv q" "\<not> sq_closed q"
  shows "\<forall>r cur nv newBytes.
        map_of (zestor_kv q) (kind, key) = Some r \<and> Unmarshal (codec q) (col_value r) = Inr cur \<and>
        fn cur = Inr nv \<and> Marshal (codec q) nv = Inr newBytes \<and> newBytes \<noteq> col_value r \<longrightarrow>
      (\<exists>q'. sqLiteStore_SetFn q now kind key fn = Inr ((False, None), q') \<and>
            sq_chans q' = deliver_to (kind_subs q kind) (mkEvent kind EventTypeUpdate (key, nv)) (sq_chans q))"
proof (intro allI impI)
  fix r cur nv newBytes
  assume a: "map_of (zestor_kv q) (kind, key) = Some r \<and> Unmarshal (codec q) (col_value r) = Inr cur \<and>
        fn cur = Inr nv \<and> Marshal (codec q) nv = Inr newBytes \<and> newBytes \<noteq> col_value r"
  with sqLiteStore_SetFn_effect[where fn=fn and cur=cur and nv=nv and now=now and r=r and newBytes=newBytes, OF assms]
  show "\<exists>q'. sqLiteStore_SetFn q now kind key fn = Inr ((False, None), q') \<and>
            sq_chans q' = deliver_to (kind_subs q kind) (mkEvent kind EventTypeUpdate (key, nv)) (sq_chans q)"
    by (auto simp: mkEvent_eq)
qed

lemma events_sq_SetAll:
  assumes "sq_inv q" "\<not> sq_closed q"
  shows "distinct (map fst values) \<and> (\<forall>v \<in> snd ` set values. \<exists>enc. Marshal (codec q) v = Inr enc) \<longrightarrow>
      (\<exists>q'. sqLiteStore_SetAll q now kind values = Inr (None, q') \<and>
            sq_chans q' = deliver_all (kind_subs q kind)
               (map (mkEvent kind EventTypeCreate) (filter (\<lambda>(k, v). map_of (zestor_kv q) (kind, k) = None) values) @
                map (mkEvent kind EventTypeUpdate) (filter (\<lambda>(k, v). map_of (zestor_kv q) (kind, k) \<noteq> None) values))
               (sq_chans q))"
proof
  assume a: "distinct (map fst values) \<and> (\<forall>v \<in> snd ` set values. \<exists>enc. Marshal (codec q) v = Inr enc)"
  then have d: "distinct (map fst values)" and m: "\<forall>v \<in> snd ` set values. \<exists>enc. Marshal (codec q) v = Inr enc"
    by simp_all
  from sqLiteStore_SetAll_effect[OF assms d m, of now kind]
  show "\<exists>q'. sqLiteStore_SetAll q now kind values = Inr (None, q') \<and>
            sq_chans q' = deliver_all (kind_subs q kind)
               (map (mkEvent kind EventTypeCreate) (filter (\<lambda>(k, v). map_of (zestor_kv q) (kind, k) = None) values) @
                map (mkEvent kind EventTypeUpdate) (filter (\<lambda>(k, v). map_of (zestor_kv q) (kind, k) \<noteq> None) values))
               (sq_chans q)"
    by blast
qed

lemma events_sq_Delete:
  assumes "sq_inv q" "\<not> sq_closed q"
  shows "\<forall>r prev. map_of (zestor_kv q) (kind, key) = Some r \<and> Unmarshal (codec q) (col_value r) = Inr prev \<longrightarrow>
      (\<exists>q'. sqLiteStore_Delete zero q kind key = Inr ((True, prev, None), q') \<and>
            map_of (zestor_kv q') (kind, key) = None \<and>
            sq_chans q' = deliver_to (kind_subs q kind) (mkEvent kind EventTypeDelete (key, prev)) (sq_chans q))"
  using assms by (simp add: sqLiteStore_Delete_effect mkEvent_eq delete_conv')

text \<open>
  C7. An event built by \<open>mkEvent kind t (k, v)\<close> has \<open>Object = v\<close>, and on an open store
  with a sound registry the events of the write operations are, in both engines: for
  \<open>Set\<close> (when it is not suppressed as unchanged) one create or update event carrying
  the value passed in; for \<open>SetFn\<close> one update event carrying the value the transform
  returned; for \<open>SetAll\<close> create and update events carrying the supplied values; for
  \<open>Delete\<close> of an existing key the result \<open>(true, prev)\<close>, the key gone, and exactly one
  delete event carrying \<open>prev\<close>, the value stored before (in the durable engine: what
  the stored bytes decode to). \<open>Delete\<close> of an absent key returns \<open>(false, zero)\<close> with no
  error and leaves every channel (and every entry) as it was. \<open>deliver_to\<close> and
  \<open>deliver_all\<close> say which watchers receive an event.
\<close>

theorem events_carry_values:
  assumes "mem_inv s" "\<not> closed s" "sq_inv q" "\<not> sq_closed q"
  shows
   "(Object (mkEvent kind t (k, v)) = v \<and> Name (mkEvent kind t (k, v)) = k \<and>
     EventType (mkEvent kind t (k, v)) = t \<and> Kind (mkEvent kind t (k, v)) = kind) \<and>
    ((case validationFns s kind of None \<Rightarrow> None | Some vf \<Rightarrow> vf val) = None \<and>
      \<not> compareFn s (case map_of (kind_entries s kind) key of None \<Rightarrow> zero | Some p \<Rightarrow> p) val \<longrightarrow>
      (\<exists>s'. memStore_Set zero s kind key val = Inr ((map_of (kind_entries s kind) key = None, None), s') \<and>
            chans s' = deliver_to (map snd (kind_watchers s kind))
               (mkEvent kind (if map_of (kind_entries s kind) key = None then EventTypeCreate else EventTypeUpdate)
                  (key, val)) (chans s))) \<and>
    (\<forall>prev nv. map_of (kind_entries s kind) key = Some prev \<and> fn prev = Inr nv \<longrightarrow>
      (\<exists>s'. memStore_SetFn s kind key fn = Inr ((False, None), s') \<and>
            chans s' = deliver_to (map snd (kind_watchers s kind)) (mkEvent kind EventTypeUpdate (key, nv)) (chans s))) \<and>
    (distinct (map fst values) \<and>
      (case validationFns s kind of None \<Rightarrow> None | Some vf \<Rightarrow> validate_values vf values) = None \<longrightarrow>
      (\<exists>s'. memStore_SetAll s kind values = Inr (None, s') \<and>
            chans s' = deliver_all (map snd (kind_watchers s kind))
               (map (mkEvent kind EventTypeCreate) (filter (\<lambda>(k, v). map_of (kind_entries s kind) k = None) values) @
                map (mkEvent kind EventTypeUpdate) (filter (\<lambda>(k, v). map_of (kind_entries s kind) k \<noteq> None) values))
               (chans s))) \<and>
    (\<forall>prev. map_of (kind_entries s kind) key = Some prev \<longrightarrow>
      (\<exists>s'. memStore_Delete zero s kind key = Inr ((True, prev, None), s') \<and>
            map_of (kind_entries s' kind) key = None \<and>
            chans s' = deliver_to (map snd (kind_watchers s kind)) (mkEvent kind EventTypeDelete (key, prev)) (chans s))) \<and>
    (map_of (kind_entries s kind) key = None \<longrightarrow>
      (\<exists>s'. memStore_Delete zero s kind key = Inr ((False, zero, None), s') \<and> chans s' = chans s \<and>
            (\<forall>kd. kind_entries s' kd = kind_entries s kd))) \<and>
    (\<forall>enc. Marshal (codec q) val = Inr enc \<and>
        map_option col_value (map_of (zestor_kv q) (kind, key)) \<noteq> Some enc \<longrightarrow>
      (\<exists>q'. sqLiteStore_Set q now kind key val = Inr ((map_of (zestor_kv q) (kind, key) = None, None), q') \<and>
            sq_chans q' = deliver_to (kind_subs q kind)
               (mkEvent kind (if map_of (zestor_kv q) (kind, key) = None then EventTypeCreate else EventTypeUpdate)
                  (key, val)) (sq_chans q))) \<and>
    (\<forall>r cur nv newBytes.
        map_of (zestor_kv q) (kind, key) = Some r \<and> Unmarshal (codec q) (col_value r) = Inr cur \<and>
        fn cur = Inr nv \<and> Marshal (codec q) nv = Inr newBytes \<and> newBytes \<noteq> col_value r \<longrightarrow>
      (\<exists>q'. sqLiteStore_SetFn q now kind key fn = Inr ((False, None), q') \<and>
            sq_chans q' = deliver_to (kind_subs q kind) (mkEvent kind EventTypeUpdate (key, nv)) (sq_chans q))) \<and>
    (distinct (map fst values) \<and> (\<forall>v \<in> snd ` set values. \<exists>enc. Marshal (codec q) v = Inr enc) \<longrightarrow>
      (\<exists>q'. sqLiteStore_SetAll q now kind values = Inr (None, q') \<and>
            sq_chans q' = deliver_all (kind_subs q kind)
               (map (mkEvent kind EventTypeCreate) (filter (\<lambda>(k, v). map_of (zestor_kv q) (kind, k) = None) values) @
                map (mkEvent kind EventTypeUpdate) (filter (\<lambda>(k, v). map_of (zestor_kv q) (kind, k) \<noteq> None) values))
               (sq_chans q))) \<and>
    (\<forall>r prev. map_of (zestor_kv q) (kind, key) = Some r \<and> Unmarshal (codec q) (col_value r) = Inr prev \<longrightarrow>
      (\<exists>q'. sqLiteStore_Delete zero q kind key = Inr ((True, prev, None), q') \<and>
            map_of (zestor_kv q') (kind, key) = None \<and>
            sq_chans q' = deliver_to (kind_subs q kind) (mkEvent kind EventTypeDelete (key, prev)) (sq_chans q))) \<and>
    (map_of (zestor_kv q) (kind, key) = None \<longrightarrow>
      sqLiteStore_Delete zero q kind key = Inr ((False, zero, None), q))"
proof -
  have c0: "Object (mkEvent kind t (k, v)) = v \<and> Name (mkEvent kind t (k, v)) = k \<and>
     EventType (mkEvent kind t (k, v)) = t \<and> Kind (mkEvent kind t (k, v)) = kind"
    by simp
  have c11: "map_of (zestor_kv q) (kind, key) = None \<longrightarrow>
      sqLiteStore_Delete zero q kind key = Inr ((False, zero, None), q)"
    using assms(3,4) by (simp add: sqLiteStore_Delete_absent)
  show ?thesis
    by (rule conjI[OF c0 conjI[OF events_mem_Set[OF assms(1,2)] conjI[OF events_mem_SetFn[OF assms(1,2)]
         conjI[OF events_mem_SetAll[OF assms(1,2)] conjI[OF events_mem_Delete[OF assms(1,2)]
         conjI[OF events_mem_Delete_absent[OF assms(2)] conjI[OF events_sq_Set[OF assms(3,4)]
         conjI[OF events_sq_SetFn[OF assms(3,4)] conjI[OF events_sq_SetAll[OF assms(3,4)]
         conjI[OF events_sq_Delete[OF assms(3,4)] c11]]]]]]]]]])
qed

theorem events_carry_values_witness:
  "(\<exists>s'. memStore_Delete [] ex_mem ''users'' ''a'' = Inr ((True, ''x'', None), s') \<and>
      map_of (kind_entries s' ''users'') ''a'' = None \<and>
      chans s' = [\<lparr>buf = [mkEvent ''users'' EventTypeDelete (''a'', ''x'')], cap = 128, chan_closed = False\<rparr>]) \<and>
   (\<exists>q'. sqLiteStore_Delete [] ex_sq ''users'' ''a'' = Inr ((True, ''x'', None), q') \<and>
      map_of (zestor_kv q') (''users'', ''a'') = None \<and>
      sq_chans q' = [\<lparr>buf = [mkEvent ''users'' EventTypeDelete (''a'', ''x'')], cap = 128, chan_closed = False\<rparr>]) \<and>
   (\<exists>s'. memStore_Delete [] ex_mem ''users'' ''b'' = Inr ((False, [], None), s') \<and> chans s' = chans ex_mem) \<and>
   sqLiteStore_Delete [] ex_sq ''users'' ''b'' = Inr ((False, [], None), ex_sq) \<and>
   (\<exists>s'. memStore_Set [] ex_mem ''users'' ''a'' ''y'' = Inr ((False, None), s') \<and>
      chans s' = [\<lparr>buf = [mkEvent ''users'' EventTypeUpdate (''a'', ''y'')], cap = 128, chan_closed = False\<rparr>])"
proof -
  let ?r = "\<lparr>col_value = ''x'', col_version = 1, col_updated_at = ''t0''\<rparr>"
  have h: "mem_inv ex_mem" "\<not> closed ex_mem" "sq_inv ex_sq" "\<not> sq_closed ex_sq"
    by (simp_all add: ex_defs inv_eval)
  have e: "map_of (kind_entries ex_mem ''users'') ''a'' = Some ''x''"
    "map_of (kind_entries ex_mem ''users'') ''b'' = None"
    "map_of (zestor_kv ex_sq) (''users'', ''a'') = Some ?r"
    "map_of (zestor_kv ex_sq) (''users'', ''b'') = None"
    "Unmarshal (codec ex_sq) (col_value ?r) = Inr ''x''"
    "(case validationFns ex_mem ''users'' of None \<Rightarrow> None | Some vf \<Rightarrow> vf ''y'') = None"
    "\<not> compareFn ex_mem ''x'' ''y''"
    by (simp_all add: ex_defs mem_eval idCodec_def)
  have d: "deliver_to (map snd (kind_watchers ex_mem ''users'')) ev (chans ex_mem) =
             [\<lparr>buf = [ev], cap = 128, chan_closed = False\<rparr>]"
          "deliver_to (kind_subs ex_sq ''users'') ev (sq_chans ex_sq) =
             [\<lparr>buf = [ev], cap = 128, chan_closed = False\<rparr>]" for ev :: "string Event"
    by (simp_all add: ex_defs mem_eval kind_subs_def deliver_eval)
  note Ta = events_carry_values[OF h, where kind="''users''" and key="''a''" and zero="[]" and val="''y''"]
  note Tb = events_carry_values[OF h, where kind="''users''" and key="''b''" and zero="[]"]
  note c2 = conjunct2[THEN conjunct1]
  note c5 = conjunct2[THEN conjunct2, THEN conjunct2, THEN conjunct2, THEN conjunct1]
  note c6 = conjunct2[THEN conjunct2, THEN conjunct2, THEN conjunct2, THEN conjunct2, THEN conjunct1]
  note c10 = conjunct2[THEN conjunct2, THEN conjunct2, THEN conjunct2, THEN conjunct2, THEN conjunct2,
                       THEN conjunct2, THEN conjunct2, THEN conjunct2, THEN conjunct1]
  note c11 = conjunct2[THEN conjunct2, THEN conjunct2, THEN conjunct2, THEN conjunct2, THEN conjunct2,
                       THEN conjunct2, THEN conjunct2, THEN conjunct2, THEN conjunct2]
  from Ta[THEN c5, rule_format, of "''x''"] e d
  have 1: "\<exists>s'. memStore_Delete [] ex_mem ''users'' ''a'' = Inr ((True, ''x'', None), s') \<and>
      map_of (kind_entries s' ''users'') ''a'' = None \<and>
      chans s' = [\<lparr>buf = [mkEvent ''users'' EventTypeDelete (''a'', ''x'')], cap = 128, chan_closed = False\<rparr>]"
    by simp
  from Ta[THEN c10, rule_format, of ?r "''x''"] e d
  have 2: "\<exists>q'. sqLiteStore_Delete [] ex_sq ''users'' ''a'' = Inr ((True, ''x'', None), q') \<and>
      map_of (zestor_kv q') (''users'', ''a'') = None \<and>
      sq_chans q' = [\<lparr>buf = [mkEvent ''users'' EventTypeDelete (''a'', ''x'')], cap = 128, chan_closed = False\<rparr>]"
    by simp
  from Tb[THEN c6, rule_format] e
  have 3: "\<exists>s'. memStore_Delete [] ex_mem ''users'' ''b'' = Inr ((False, [], None), s') \<and> chans s' = chans ex_mem"
    by blast
  from Tb[THEN c11, rule_format] e
  have 4: "sqLiteStore_Delete [] ex_sq ''users'' ''b'' = Inr ((False, [], None), ex_sq)"
    by blast
  from Ta[THEN c2, rule_format] e d
  have 5: "\<exists>s'. memStore_Set [] ex_mem ''users'' ''a'' ''y'' = Inr ((False, None), s') \<and>
      chans s' = [\<lparr>buf = [mkEvent ''users'' EventTypeUpdate (''a'', ''y'')], cap = 128, chan_closed = False\<rparr>]"
    by simp
  from 1 2 3 4 5 show ?thesis by blast
qed

subsection \<open>Initial replay\<close>

lemma replay_loop_open:
  "a < length h \<Longrightarrow> \<not> chan_closed (h ! a) \<Longrightarrow>
   replay_loop pick False kind a h m =
     Inr (h[a := (h ! a)\<lparr>buf := buf (h ! a) @ map (mkEvent kind EventTypeCreate) (take (cap (h ! a) - length (buf (h ! a))) m)\<rparr>],
          if length m \<le> cap (h ! a) - length (buf (h ! a)) then Finished
          else Blocked (drop (cap (h ! a) - length (buf (h ! a))) m))"
proof (induction m arbitrary: h)
  case Nil
  then show ?case by simp
next
  case (Cons kv m)
  show ?case
  proof (cases "length (buf (h ! a)) < cap (h ! a)")
    case False
    with Cons.prems show ?thesis by (simp add: Let_def)
  next
    case True
    let ?c = "(h ! a)\<lparr>buf := buf (h ! a) @ [mkEvent kind EventTypeCreate kv]\<rparr>"
    let ?h1 = "h[a := ?c]"
    have s: "chan_send (h ! a) (mkEvent kind EventTypeCreate kv) = Inr ?c"
      using True Cons.prems by (simp add: chan_send_def)
    have "replay_loop pick False kind a ?h1 m =
     Inr (?h1[a := (?h1 ! a)\<lparr>buf := buf (?h1 ! a) @ map (mkEvent kind EventTypeCreate) (take (cap (?h1 ! a) - length (buf (?h1 ! a))) m)\<rparr>],
          if length m \<le> cap (?h1 ! a) - length (buf (?h1 ! a)) then Finished
          else Blocked (drop (cap (?h1 ! a) - length (buf (?h1 ! a))) m))"
      by (rule Cons.IH) (use Cons.prems in simp_all)
    with True s Cons.prems show ?thesis
      by (auto simp: Let_def take_Cons' drop_Cons' Suc_diff_Suc not_le split: nat.splits)
  qed
qed

lemma memStore_Watch_effect:
  assumes "kind \<noteq> []" "\<not> closed s" "mem_apply_opts emptyCfg opts = Inr cfg"
  shows "memStore_Watch s kind opts =
     Inr (Inr (length (chans s),
               \<lparr>c_kind = kind, c_id = watcherID s + 1, c_doneCh = length (dones s)\<rparr>,
               if Initial cfg \<and> kind_entries s kind \<noteq> [] \<and> sendInitial cfg
               then Some \<lparr>r_kind = kind, r_snap = kind_entries s kind, r_ch = length (chans s), r_doneCh = length (dones s)\<rparr>
               else None),
          (ensureKind s kind)
            \<lparr>watcherID := watcherID s + 1,
             chans := chans s @ [make_chan (nat (if BufferSize cfg \<le> 0 then DefaultWatchBufferSize else BufferSize cfg))],
             watchers := AList.update kind
                 (AList.update (watcherID s + 1) \<lparr>ch = length (chans s), eventTypes = EventTypes cfg\<rparr> (kind_watchers s kind))
                 (watchers (ensureKind s kind)),
             dones := dones s @ [False]\<rparr>)"
proof -
  have k: "kind_entries ((ensureKind s kind)\<lparr>watcherID := i, chans := h, watchers := w\<rparr>) kind = kind_entries s kind" for i h w
    using kind_entries_ensureKind[of s kind kind] by (simp add: kind_entries_def)
  show ?thesis
    using assms by (simp add: memStore_Watch_def Let_def k)
qed

lemma sqLiteStore_Watch_effect:
  assumes "kind \<noteq> []" "\<not> sq_closed q" "subs q = Some m"
  shows "sqLiteStore_Watch q kind opts =
     Inr (Inr (length (sq_chans q),
               \<lparr>q_kind = kind, q_w = \<lparr>ch = length (sq_chans q), eventTypes = EventTypes (sq_apply_opts emptyCfg opts)\<rparr>\<rparr>,
               if Initial (sq_apply_opts emptyCfg opts) \<and> sendInitial (sq_apply_opts emptyCfg opts)
               then Some \<lparr>p_kind = kind, p_w = \<lparr>ch = length (sq_chans q), eventTypes = EventTypes (sq_apply_opts emptyCfg opts)\<rparr>\<rparr>
               else None),
          q\<lparr>sq_chans := sq_chans q @ [make_chan (nat (if BufferSize (sq_apply_opts emptyCfg opts) \<le> 0
                                                      then DefaultWatchBufferSize else BufferSize (sq_apply_opts emptyCfg opts)))],
            subs := Some (AList.update kind
                 (let ws = kind_subs q kind; w = \<lparr>ch = length (sq_chans q), eventTypes = EventTypes (sq_apply_opts emptyCfg opts)\<rparr>
                  in if w \<in> set ws then ws else ws @ [w]) m)\<rparr>)"
  using assms by (simp add: sqLiteStore_Watch_def Let_def kind_subs_def)

lemma sendInitial_lets_create: "sendInitial cfg = lets_create cfg"
  by (auto simp: sendInitial_def lets_create_def split: option.splits)

lemma replay_mem:
  assumes "kind \<noteq> []" "\<not> closed s" "mem_apply_opts emptyCfg opts = Inr cfg"
  shows "\<exists>c task s'. memStore_Watch s kind opts = Inr (Inr (length (chans s), c, task), s') \<and>
     (task \<noteq> None \<longleftrightarrow> Initial cfg \<and> kind_entries s kind \<noteq> [] \<and> lets_create cfg) \<and>
     (\<forall>t. task = Some t \<longrightarrow>
        memStore_replay pick s' t =
          Inr (s'\<lparr>chans := chans s @
                  [\<lparr>buf = map (mkEvent kind EventTypeCreate) (take (watchBufSize cfg) (kind_entries s kind)),
                    cap = watchBufSize cfg, chan_closed = False\<rparr>]\<rparr>,
               if length (kind_entries s kind) \<le> watchBufSize cfg then Finished
               else Blocked (drop (watchBufSize cfg) (kind_entries s kind))))"
proof -
  let ?a = "length (chans s)"
  let ?s' = "(ensureKind s kind)
            \<lparr>watcherID := watcherID s + 1,
             chans := chans s @ [make_chan (watchBufSize cfg)],
             watchers := AList.update kind
                 (AList.update (watcherID s + 1) \<lparr>ch = length (chans s), eventTypes = EventTypes cfg\<rparr> (kind_watchers s kind))
                 (watchers (ensureKind s kind)),
             dones := dones s @ [False]\<rparr>"
  let ?t = "\<lparr>r_kind = kind, r_snap = kind_entries s kind, r_ch = ?a, r_doneCh = length (dones s)\<rparr>"
  let ?task = "if Initial cfg \<and> kind_entries s kind \<noteq> [] \<and> sendInitial cfg then Some ?t else None"
  have 1: "memStore_Watch s kind opts =
      Inr (Inr (?a, \<lparr>c_kind = kind, c_id = watcherID s + 1, c_doneCh = length (dones s)\<rparr>, ?task), ?s')"
    using memStore_Watch_effect[OF assms] by (simp add: watchBufSize_def)
  have 2: "?task \<noteq> None \<longleftrightarrow> Initial cfg \<and> kind_entries s kind \<noteq> [] \<and> lets_create cfg"
    by (simp add: sendInitial_lets_create)
  have l: "replay_loop pick False kind ?a (chans ?s') (kind_entries s kind) =
     Inr ((chans ?s')[?a := (chans ?s' ! ?a)\<lparr>buf := buf (chans ?s' ! ?a) @
             map (mkEvent kind EventTypeCreate) (take (cap (chans ?s' ! ?a) - length (buf (chans ?s' ! ?a))) (kind_entries s kind))\<rparr>],
          if length (kind_entries s kind) \<le> cap (chans ?s' ! ?a) - length (buf (chans ?s' ! ?a)) then Finished
          else Blocked (drop (cap (chans ?s' ! ?a) - length (buf (chans ?s' ! ?a))) (kind_entries s kind)))"
    by (rule replay_loop_open) (simp_all add: make_chan_def)
  have 3: "memStore_replay pick ?s' ?t =
          Inr (?s'\<lparr>chans := chans s @
                  [\<lparr>buf = map (mkEvent kind EventTypeCreate) (take (watchBufSize cfg) (kind_entries s kind)),
                    cap = watchBufSize cfg, chan_closed = False\<rparr>]\<rparr>,
               if length (kind_entries s kind) \<le> watchBufSize cfg then Finished
               else Blocked (drop (watchBufSize cfg) (kind_entries s kind)))"
    using l by (simp add: memStore_replay_def make_chan_def nth_append)
  from 1 2 3 show ?thesis
    by (intro exI[of _ "\<lparr>c_kind = kind, c_id = watcherID s + 1, c_doneCh = length (dones s)\<rparr>"]
              exI[of _ ?task] exI[of _ ?s']) (simp split: if_splits)
qed

lemma replay_sq:
  assumes "kind \<noteq> []" "sq_inv q" "\<not> sq_closed q"
  shows "\<exists>c task q'. sqLiteStore_Watch q kind opts = Inr (Inr (length (sq_chans q), c, task), q') \<and>
     (task \<noteq> None \<longleftrightarrow> Initial (sq_apply_opts emptyCfg opts) \<and> lets_create (sq_apply_opts emptyCfg opts)) \<and>
     (\<forall>t m. task = Some t \<and> decode_rows (codec q) (kind_rows (zestor_kv q) kind) = Inr m \<longrightarrow>
        sqLiteStore_replay q' t =
          Inr (q'\<lparr>sq_chans := sq_chans q @
                  [\<lparr>buf = map (mkEvent kind EventTypeCreate) (take (watchBufSize (sq_apply_opts emptyCfg opts)) m),
                    cap = watchBufSize (sq_apply_opts emptyCfg opts), chan_closed = False\<rparr>]\<rparr>))"
proof -
  let ?cfg = "sq_apply_opts emptyCfg opts"
  let ?a = "length (sq_chans q)"
  let ?w = "\<lparr>ch = ?a, eventTypes = EventTypes ?cfg\<rparr>"
  from assms(2,3) obtain m0 where m0: "subs q = Some m0" and db: "\<not> db_closed q"
    by (auto simp: sq_inv_def)
  let ?q' = "q\<lparr>sq_chans := sq_chans q @ [make_chan (watchBufSize ?cfg)],
            subs := Some (AList.update kind
                 (let ws = kind_subs q kind; w = ?w in if w \<in> set ws then ws else ws @ [w]) m0)\<rparr>"
  let ?t = "\<lparr>p_kind = kind, p_w = ?w\<rparr>"
  let ?task = "if Initial ?cfg \<and> sendInitial ?cfg then Some ?t else None"
  have 1: "sqLiteStore_Watch q kind opts = Inr (Inr (?a, \<lparr>q_kind = kind, q_w = ?w\<rparr>, ?task), ?q')"
    using sqLiteStore_Watch_effect[OF assms(1,3) m0, of opts] by (simp add: watchBufSize_def)
  have 2: "?task \<noteq> None \<longleftrightarrow> Initial ?cfg \<and> lets_create ?cfg"
    by (simp add: sendInitial_lets_create)
  have 3: "sqLiteStore_replay ?q' ?t =
          Inr (?q'\<lparr>sq_chans := sq_chans q @
                  [\<lparr>buf = map (mkEvent kind EventTypeCreate) (take (watchBufSize ?cfg) m),
                    cap = watchBufSize ?cfg, chan_closed = False\<rparr>]\<rparr>)"
    if "decode_rows (codec q) (kind_rows (zestor_kv q) kind) = Inr m" for m
  proof -
    have li: "sqLiteStore_List ?q' kind [] = Inr m"
      using that assms(3) db by (simp add: sqLiteStore_List_def)
    have "send_all (sq_chans ?q') ?a (map (mkEvent kind EventTypeCreate) m) =
       Inr ((sq_chans ?q')[?a := (sq_chans ?q' ! ?a)\<lparr>buf := buf (sq_chans ?q' ! ?a) @
              take (cap (sq_chans ?q' ! ?a) - length (buf (sq_chans ?q' ! ?a))) (map (mkEvent kind EventTypeCreate) m)\<rparr>])"
      by (rule send_all_open) (simp_all add: make_chan_def)
    with li show ?thesis
      by (simp add: sqLiteStore_replay_def make_chan_def nth_append take_map)
  qed
  from 1 2 3 show ?thesis
    by (intro exI[of _ "\<lparr>q_kind = kind, q_w = ?w\<rparr>"] exI[of _ ?task] exI[of _ ?q']) (simp split: if_splits)
qed

text \<open>
  C3 (as amended). In both engines \<open>Watch\<close> on an open store starts the replay goroutine
  exactly when initial replay was asked for and the event-type filter lets create events
  through, that is when the filter is absent or contains \<open>create\<close> (and, in the in-memory
  engine, when the kind has entries at that moment). A subscription whose filter is set
  and lacks \<open>create\<close> gets no replay. When the goroutine runs on the fresh subscription
  (no receiver, no cancel yet) it puts into the new channel one create event per entry
  of the kind, up to the capacity of the channel: the in-memory engine from the snapshot
  taken by \<open>Watch\<close>, blocking on the rest; the durable engine from the rows listed when
  it runs, dropping the rest.
\<close>

theorem replay_needs_create:
  assumes "kind \<noteq> []" "\<not> closed s" "mem_apply_opts emptyCfg opts = Inr cfg" "sq_inv q" "\<not> sq_closed q"
  shows "(\<exists>c task s'. memStore_Watch s kind opts = Inr (Inr (length (chans s), c, task), s') \<and>
     (task \<noteq> None \<longleftrightarrow> Initial cfg \<and> kind_entries s kind \<noteq> [] \<and> lets_create cfg) \<and>
     (\<forall>t. task = Some t \<longrightarrow>
        memStore_replay pick s' t =
          Inr (s'\<lparr>chans := chans s @
                  [\<lparr>buf = map (mkEvent kind EventTypeCreate) (take (watchBufSize cfg) (kind_entries s kind)),
                    cap = watchBufSize cfg, chan_closed = False\<rparr>]\<rparr>,
               if length (kind_entries s kind) \<le> watchBufSize cfg then Finished
               else Blocked (drop (watchBufSize cfg) (kind_entries s kind))))) \<and>
    (\<exists>c task q'. sqLiteStore_Watch q kind opts' = Inr (Inr (length (sq_chans q), c, task), q') \<and>
     (task \<noteq> None \<longleftrightarrow> Initial (sq_apply_opts emptyCfg opts') \<and> lets_create (sq_apply_opts emptyCfg opts')) \<and>
     (\<forall>t m. task = Some t \<and> decode_rows (codec q) (kind_rows (zestor_kv q) kind) = Inr m \<longrightarrow>
        sqLiteStore_replay q' t =
          Inr (q'\<lparr>sq_chans := sq_chans q @
                  [\<lparr>buf = map (mkEvent kind EventTypeCreate) (take (watchBufSize (sq_apply_opts emptyCfg opts')) m),
                    cap = watchBufSize (sq_apply_opts emptyCfg opts'), chan_closed = False\<rparr>]\<rparr>))) \<and>
    (lets_create cfg \<longleftrightarrow> EventTypes cfg = None \<or> (\<exists>S. EventTypes cfg = Some S \<and> EventTypeCreate \<in> S))"
  using replay_mem[OF assms(1-3)] replay_sq[OF assms(1,4,5)] lets_create_def[of cfg]
  by blast

lemmas cfg_eval = emptyCfg_def WithInitialReplay_def WithEventTypes_def WithBufferSize_def watchBufSize_def
  DefaultWatchBufferSize_def lets_create_def sendInitial_def

theorem replay_needs_create_witness:
  "(\<exists>c t s'. memStore_Watch ex_mem ''users'' [Some WithInitialReplay] = Inr (Inr (1, c, Some t), s') \<and>
      memStore_replay True s' t =
        Inr (s'\<lparr>chans := chans ex_mem @
               [\<lparr>buf = [mkEvent ''users'' EventTypeCreate (''a'', ''x'')], cap = 128, chan_closed = False\<rparr>]\<rparr>, Finished)) \<and>
   (\<exists>c s'. memStore_Watch ex_mem ''users'' [Some WithInitialReplay, Some (WithEventTypes [EventTypeUpdate])] =
      Inr (Inr (1, c, None), s')) \<and>
   (\<exists>c t q'. sqLiteStore_Watch ex_sq ''users'' [Some WithInitialReplay] = Inr (Inr (1, c, Some t), q') \<and>
      sqLiteStore_replay q' t =
        Inr (q'\<lparr>sq_chans := sq_chans ex_sq @
               [\<lparr>buf = [mkEvent ''users'' EventTypeCreate (''a'', ''x'')], cap = 128, chan_closed = False\<rparr>]\<rparr>)) \<and>
   (\<exists>c q'. sqLiteStore_Watch ex_sq ''users'' [Some WithInitialReplay, Some (WithEventTypes [EventTypeUpdate])] =
      Inr (Inr (1, c, None), q'))"
proof -
  let ?o1 = "[Some WithInitialReplay]"
  let ?o2 = "[Some WithInitialReplay, Some (WithEventTypes [EventTypeUpdate])]"
  let ?c1 = "emptyCfg\<lparr>Initial := True\<rparr>"
  let ?c2 = "emptyCfg\<lparr>Initial := True, EventTypes := Some {EventTypeUpdate}\<rparr>"
  have h: "''users'' \<noteq> []" "\<not> closed ex_mem" "sq_inv ex_sq" "\<not> sq_closed ex_sq"
    by (simp_all add: ex_defs inv_eval)
  have o: "mem_apply_opts emptyCfg ?o1 = Inr ?c1" "mem_apply_opts emptyCfg ?o2 = Inr ?c2"
    "sq_apply_opts emptyCfg ?o1 = ?c1" "sq_apply_opts emptyCfg ?o2 = ?c2"
    by (simp_all add: cfg_eval)
  have e: "Initial ?c1" "lets_create ?c1" "\<not> lets_create ?c2" "watchBufSize ?c1 = 128"
    "kind_entries ex_mem ''users'' = [(''a'', ''x'')]" "length (chans ex_mem) = 1" "length (sq_chans ex_sq) = 1"
    "decode_rows (codec ex_sq) (kind_rows (zestor_kv ex_sq) ''users'') = Inr [(''a'', ''x'')]"
    by (simp_all add: cfg_eval ex_defs mem_eval kind_rows_def idCodec_def)
  note T1 = replay_needs_create[OF h(1,2) o(1) h(3,4), of True ?o1]
  note T2 = replay_needs_create[OF h(1,2) o(2) h(3,4), of True ?o2]
  from T1[THEN conjunct1] e obtain c t s' where
    "memStore_Watch ex_mem ''users'' ?o1 = Inr (Inr (1, c, Some t), s')"
    "memStore_replay True s' t =
        Inr (s'\<lparr>chans := chans ex_mem @
               [\<lparr>buf = [mkEvent ''users'' EventTypeCreate (''a'', ''x'')], cap = 128, chan_closed = False\<rparr>]\<rparr>, Finished)"
    by auto
  then have 1: "\<exists>c t s'. memStore_Watch ex_mem ''users'' ?o1 = Inr (Inr (1, c, Some t), s') \<and>
      memStore_replay True s' t =
        Inr (s'\<lparr>chans := chans ex_mem @
               [\<lparr>buf = [mkEvent ''users'' EventTypeCreate (''a'', ''x'')], cap = 128, chan_closed = False\<rparr>]\<rparr>, Finished)"
    by blast
  from T2[THEN conjunct1] e
  have 2: "\<exists>c s'. memStore_Watch ex_mem ''users'' ?o2 = Inr (Inr (1, c, None), s')"
    by auto
  from T1[THEN conjunct2, THEN conjunct1] e o(3) obtain c t q' where
    "sqLiteStore_Watch ex_sq ''users'' ?o1 = Inr (Inr (1, c, Some t), q')"
    "sqLiteStore_replay q' t =
        Inr (q'\<lparr>sq_chans := sq_chans ex_sq @
               [\<lparr>buf = [mkEvent ''users'' EventTypeCreate (''a'', ''x'')], cap = 128, chan_closed = False\<rparr>]\<rparr>)"
    by auto
  then have 3: "\<exists>c t q'. sqLiteStore_Watch ex_sq ''users'' ?o1 = Inr (Inr (1, c, Some t), q') \<and>
      sqLiteStore_replay q' t =
        Inr (q'\<lparr>sq_chans := sq_chans ex_sq @
               [\<lparr>buf = [mkEvent ''users'' EventTypeCreate (''a'', ''x'')], cap = 128, chan_closed = False\<rparr>]\<rparr>)"
    by blast
  from T2[THEN conjunct2, THEN conjunct1] e o(4)
  have 4: "\<exists>c q'. sqLiteStore_Watch ex_sq ''users'' ?o2 = Inr (Inr (1, c, None), q')"
    by auto
  from 1 2 3 4 show ?thesis by blast
qed

text \<open>
  The claim as written fails: a subscription that asks for initial replay with the
  filter \<open>{create}\<close> starts the replay goroutine, and the create event of the existing
  entry reaches its channel.
\<close>

theorem replay_needs_create_counterexample:
  "memStore_Watch ex_mem ''users'' [Some WithInitialReplay, Some (WithEventTypes [EventTypeCreate])] =
     Inr (Inr (1, \<lparr>c_kind = ''users'', c_id = 2, c_doneCh = 1\<rparr>,
               Some \<lparr>r_kind = ''users'', r_snap = [(''a'', ''x'')], r_ch = 1, r_doneCh = 1\<rparr>),
          ex_mem\<lparr>watcherID := 2,
                 chans := [\<lparr>buf = [], cap = 128, chan_closed = False\<rparr>, \<lparr>buf = [], cap = 128, chan_closed = False\<rparr>],
                 watchers := [(''users'', [(1, \<lparr>ch = 0, eventTypes = None\<rparr>),
                                            (2, \<lparr>ch = 1, eventTypes = Some {EventTypeCreate}\<rparr>)])],
                 dones := [False, False]\<rparr>) \<and>
   memStore_replay True
     (ex_mem\<lparr>watcherID := 2,
                 chans := [\<lparr>buf = [], cap = 128, chan_closed = False\<rparr>, \<lparr>buf = [], cap = 128, chan_closed = False\<rparr>],
                 watchers := [(''users'', [(1, \<lparr>ch = 0, eventTypes = None\<rparr>),
                                            (2, \<lparr>ch = 1, eventTypes = Some {EventTypeCreate}\<rparr>)])],
                 dones := [False, False]\<rparr>)
     \<lparr>r_kind = ''users'', r_snap = [(''a'', ''x'')], r_ch = 1, r_doneCh = 1\<rparr> =
     Inr (ex_mem\<lparr>watcherID := 2,
                 chans := [\<lparr>buf = [], cap = 128, chan_closed = False\<rparr>,
                           \<lparr>buf = [\<lparr>Kind = ''users'', Name = ''a'', EventType = EventTypeCreate, Object = ''x''\<rparr>],
                             cap = 128, chan_closed = False\<rparr>],
                 watchers := [(''users'', [(1, \<lparr>ch = 0, eventTypes = None\<rparr>),
                                            (2, \<lparr>ch = 1, eventTypes = Some {EventTypeCreate}\<rparr>)])],
                 dones := [False, False]\<rparr>, Finished)"
  by (simp add: memStore_Watch_def memStore_replay_def ex_defs mem_eval cfg_eval mkEvent_def)

subsection \<open>Close\<close>

lemma close_addrs_gen:
  "concat (map (\<lambda>(kind, m). map (\<lambda>(idn, wch). ch wch) m) ws) = map ch (concat (map (\<lambda>(kind, m). map snd m) ws))"
  by (induction ws) (auto simp: case_prod_beta)

lemma close_addrs:
  "concat (map (\<lambda>(kind, m). map (\<lambda>(idn, wch). ch wch) m) (watchers s)) = map ch (all_watchers s)"
  by (simp add: all_watchers_def close_addrs_gen)

lemma close_addrs_sq_gen:
  "concat (map (\<lambda>(kind, ws). map ch ws) m) = map ch (concat (map snd m))"
  by (induction m) (auto simp: case_prod_beta)

lemma close_addrs_sq:
  "concat (map (\<lambda>(kind, ws). map ch ws) (case subs q of None \<Rightarrow> [] | Some m \<Rightarrow> m)) = map ch (all_subs q)"
  by (simp add: all_subs_def close_addrs_sq_gen)

lemma closed_heap:
  assumes "orphans_closed h ws"
  shows "map (\<lambda>a. if a \<in> ch ` set ws then (h ! a)\<lparr>chan_closed := True\<rparr> else h ! a) [0..<length h] =
         map (\<lambda>c. c\<lparr>chan_closed := True\<rparr>) h"
proof (rule nth_equalityI)
  show "length (map (\<lambda>a. if a \<in> ch ` set ws then (h ! a)\<lparr>chan_closed := True\<rparr> else h ! a) [0..<length h]) =
        length (map (\<lambda>c. c\<lparr>chan_closed := True\<rparr>) h)" by simp
next
  fix a assume "a < length (map (\<lambda>a. if a \<in> ch ` set ws then (h ! a)\<lparr>chan_closed := True\<rparr> else h ! a) [0..<length h])"
  then have a: "a < length h" by simp
  show "map (\<lambda>a. if a \<in> ch ` set ws then (h ! a)\<lparr>chan_closed := True\<rparr> else h ! a) [0..<length h] ! a =
        map (\<lambda>c. c\<lparr>chan_closed := True\<rparr>) h ! a"
  proof (cases "a \<in> ch ` set ws")
    case True
    with a show ?thesis by simp
  next
    case False
    with assms a have "chan_closed (h ! a)" by (auto simp: orphans_closed_def)
    then have "(h ! a)\<lparr>chan_closed := True\<rparr> = h ! a" by (cases "h ! a") simp
    with False a show ?thesis by simp
  qed
qed

lemma all_closed_orphans: "orphans_closed h [] \<Longrightarrow> a < length h \<Longrightarrow> chan_closed (h ! a)"
  by (simp add: orphans_closed_def)

lemma all_watchers_emptied [simp]:
  "concat (map (\<lambda>(kind, m). map snd m) (map (\<lambda>(kind, m). (kind, [])) ws)) = []"
  by (induction ws) auto

lemma memStore_Close_open:
  assumes "mem_inv s" "\<not> closed s"
  shows "memStore_Close s =
     Inr (s\<lparr>closed := True, watchers := map (\<lambda>(kind, m). (kind, [])) (watchers s),
            chans := map (\<lambda>c. c\<lparr>chan_closed := True\<rparr>) (chans s)\<rparr>)"
proof -
  from assms(1) have r: "regs_ok (chans s) (all_watchers s)" and o: "orphans_closed (chans s) (all_watchers s)"
    by (simp_all add: mem_inv_def)
  show ?thesis
    using assms(2) close_all_ok[OF r] closed_heap[OF o]
    by (simp add: memStore_Close_def close_addrs)
qed

lemma memStore_Close_result:
  assumes "mem_inv s"
  shows "\<exists>s'. memStore_Close s = Inr s' \<and> closed s' \<and> mem_inv s' \<and> all_watchers s' = [] \<and>
           kinds s' = kinds s \<and> dones s' = dones s \<and> map fst (watchers s') = map fst (watchers s) \<and>
           (\<forall>kd. kind_watchers s' kd = []) \<and>
           length (chans s') = length (chans s) \<and> (\<forall>a < length (chans s'). chan_closed (chans s' ! a))"
proof (cases "closed s")
  case True
  with assms have e: "all_watchers s = []" and o: "orphans_closed (chans s) (all_watchers s)"
    by (auto simp: mem_inv_def)
  have kw: "kind_watchers s kd = []" for kd
  proof (cases "map_of (watchers s) kd")
    case None
    then show ?thesis by (simp add: kind_watchers_def)
  next
    case (Some m)
    then have "(kd, m) \<in> set (watchers s)" by (rule map_of_SomeD)
    with e have "map snd m = []" by (force simp: all_watchers_def)
    with Some show ?thesis by (simp add: kind_watchers_def)
  qed
  from True assms e o kw show ?thesis
    by (auto simp: memStore_Close_def orphans_closed_def)
next
  case False
  let ?s' = "s\<lparr>closed := True, watchers := map (\<lambda>(kind, m). (kind, [])) (watchers s),
            chans := map (\<lambda>c. c\<lparr>chan_closed := True\<rparr>) (chans s)\<rparr>"
  have 1: "memStore_Close s = Inr ?s'" using assms False by (rule memStore_Close_open)
  have k: "map fst (map (\<lambda>(kind, m). (kind, [])) (watchers s)) = map fst (watchers s)"
    by (simp add: comp_def case_prod_beta)
  have w: "all_watchers ?s' = []" by (auto simp: all_watchers_def)
  have kw: "kind_watchers ?s' kd = []" for kd
    by (auto simp: kind_watchers_def split: option.splits dest!: map_of_SomeD)
  have kk: "(fst \<circ> (\<lambda>(kind, m). (kind, []))) = (fst :: string \<times> (64 word \<times> watcher) list \<Rightarrow> string)"
    by (auto simp: fun_eq_iff)
  have inv: "mem_inv ?s'"
    using assms w by (auto simp: mem_inv_def regs_ok_def orphans_closed_def kk)
  from 1 w k kw inv show ?thesis by (intro exI[of _ ?s']) simp
qed

lemma sqLiteStore_Close_result:
  assumes "sq_inv q"
  shows "\<exists>q'. sqLiteStore_Close q = Inr q' \<and> sq_closed q' \<and> db_closed q' \<and> sq_inv q' \<and> subs q' = None \<and>
           zestor_kv q' = zestor_kv q \<and>
           length (sq_chans q') = length (sq_chans q) \<and> (\<forall>a < length (sq_chans q'). chan_closed (sq_chans q' ! a))"
proof (cases "sq_closed q")
  case True
  with assms show ?thesis
    by (auto simp: sqLiteStore_Close_def sq_inv_def all_subs_def orphans_closed_def)
next
  case False
  from assms have r: "regs_ok (sq_chans q) (all_subs q)" and o: "orphans_closed (sq_chans q) (all_subs q)"
    by (simp_all add: sq_inv_def)
  let ?q' = "q\<lparr>sq_closed := True, subs := None, sq_chans := map (\<lambda>c. c\<lparr>chan_closed := True\<rparr>) (sq_chans q), db_closed := True\<rparr>"
  have 1: "sqLiteStore_Close q = Inr ?q'"
    using False close_all_ok[OF r] closed_heap[OF o]
    by (simp add: sqLiteStore_Close_def close_addrs_sq)
  have inv: "sq_inv ?q'"
    by (auto simp: sq_inv_def all_subs_def regs_ok_def orphans_closed_def)
  from 1 inv show ?thesis by (intro exI[of _ ?q']) simp
qed

lemma closed_mem_ops:
  assumes "closed s"
  shows "memStore_Get zero s kind key = (zero, False, Some ErrClosed)"
    "memStore_List s kind filters = Inl ErrClosed" "memStore_Count s kind = Inl ErrClosed"
    "memStore_Keys s kind = Inl ErrClosed" "memStore_Values s kind = Inl ErrClosed"
    "memStore_GetAll s = Inl ErrClosed"
    "memStore_Set zero s kind key val = Inr ((False, Some ErrClosed), s)"
    "memStore_SetFn s kind key fn = Inr ((False, Some ErrClosed), s)"
    "memStore_SetAll s kind values = Inr (Some ErrClosed, s)"
    "memStore_Delete zero s kind key = Inr ((False, zero, Some ErrClosed), s)"
    "memStore_Watch s kind opts =
       (if kind = [] then Inr (Inl ErrKindRequired, s)
        else case mem_apply_opts emptyCfg opts of Inl f \<Rightarrow> Inl f | Inr cfg \<Rightarrow> Inr (Inl ErrClosed, s))"
  using assms
  by (simp_all add: memStore_Get_def memStore_List_def memStore_Count_def memStore_Keys_def memStore_Values_def
        memStore_GetAll_def memStore_Set_def memStore_SetFn_def memStore_SetAll_def memStore_Delete_def
        memStore_Watch_def split: sum.splits)

lemma closed_sq_ops:
  assumes "sq_closed q"
  shows "sqLiteStore_Get zero q kind key = (zero, False, Some ErrClosed)"
    "sqLiteStore_List q kind filters = Inl ErrClosed" "sqLiteStore_Count q kind = Inl ErrClosed"
    "sqLiteStore_Keys q kind = Inl ErrClosed" "sqLiteStore_Values q kind = Inl ErrClosed"
    "sqLiteStore_GetAll q = Inl ErrClosed"
    "sqLiteStore_Set q now kind key val = Inr ((False, Some ErrClosed), q)"
    "sqLiteStore_SetFn q now kind key fn = Inr ((False, Some ErrClosed), q)"
    "sqLiteStore_SetAll q now kind values = Inr (Some ErrClosed, q)"
    "sqLiteStore_Delete zero q kind key = Inr ((False, zero, Some ErrClosed), q)"
    "sqLiteStore_Watch q kind opts =
       (if kind = [] then Inr (Inl ErrKindRequired, q) else Inr (Inl ErrClosed, q))"
  using assms
  by (simp_all add: sqLiteStore_Get_def sqLiteStore_List_def sqLiteStore_Count_def sqLiteStore_Keys_def
        sqLiteStore_Values_def sqLiteStore_GetAll_def sqLiteStore_Set_def sqLiteStore_SetFn_def
        sqLiteStore_SetAll_def sqLiteStore_Delete_def sqLiteStore_Watch_def)

lemma closed_sq_replay: "sq_closed q \<Longrightarrow> sqLiteStore_replay q t = Inr q"
  by (simp add: sqLiteStore_replay_def sqLiteStore_List_def)

lemma closed_recv: "chan_closed c \<Longrightarrow> buf c = [] \<Longrightarrow> chan_recv c = (EndOfStream, c)"
  by (simp add: chan_recv_def)

text \<open>
  C2 (as amended). \<open>Close\<close> succeeds on a store with a sound registry, and on the store
  it returns: \<open>Get\<close>, \<open>List\<close>, \<open>Count\<close>, \<open>Keys\<close>, \<open>Values\<close>, \<open>GetAll\<close>, \<open>Set\<close>, \<open>SetFn\<close>,
  \<open>SetAll\<close> and \<open>Delete\<close> return the closed error and leave the store as it is. \<open>Watch\<close>
  returns the kind-required error for the empty kind; for a kind that is not empty the
  durable engine returns the closed error, and the in-memory engine, which applies the
  options before it reads the closed flag, returns the closed error when no option is
  nil and panics on a nil option. \<open>Dump\<close> has no error result: it returns, in the
  in-memory engine, the same rendering of the entries as before \<open>Close\<close>, and in the
  durable engine the text of the database's error. Every channel ever made by \<open>Watch\<close>
  is closed; none of these operations sends on one (each returns the store as it is),
  nor does a replay goroutine of the durable engine that starts after \<open>Close\<close>, which
  stops at the closed error; and a receive on such a channel, once its buffer is
  drained, reports the end of the stream. Nothing is said of a replay goroutine that is
  already running when \<open>Close\<close> is called, nor of one of the in-memory engine.
\<close>

theorem after_Close:
  assumes "mem_inv s" "sq_inv q"
  shows "\<exists>s' q'. memStore_Close s = Inr s' \<and> sqLiteStore_Close q = Inr q' \<and>
    memStore_Get zero s' kind key = (zero, False, Some ErrClosed) \<and>
    memStore_List s' kind filters = Inl ErrClosed \<and> memStore_Count s' kind = Inl ErrClosed \<and>
    memStore_Keys s' kind = Inl ErrClosed \<and> memStore_Values s' kind = Inl ErrClosed \<and>
    memStore_GetAll s' = Inl ErrClosed \<and>
    memStore_Set zero s' kind key val = Inr ((False, Some ErrClosed), s') \<and>
    memStore_SetFn s' kind key fn = Inr ((False, Some ErrClosed), s') \<and>
    memStore_SetAll s' kind values = Inr (Some ErrClosed, s') \<and>
    memStore_Delete zero s' kind key = Inr ((False, zero, Some ErrClosed), s') \<and>
    memStore_Watch s' kind opts =
       (if kind = [] then Inr (Inl ErrKindRequired, s')
        else if None \<in> set opts then Inl NilFuncCall
        else Inr (Inl ErrClosed, s')) \<and>
    memStore_Dump fmt s' = memStore_Dump fmt s \<and>
    length (chans s') = length (chans s) \<and>
    (\<forall>a < length (chans s'). chan_closed (chans s' ! a) \<and>
        (buf (chans s' ! a) = [] \<longrightarrow> chan_recv (chans s' ! a) = (EndOfStream, chans s' ! a))) \<and>
    sqLiteStore_Get zero q' kind key = (zero, False, Some ErrClosed) \<and>
    sqLiteStore_List q' kind filters = Inl ErrClosed \<and> sqLiteStore_Count q' kind = Inl ErrClosed \<and>
    sqLiteStore_Keys q' kind = Inl ErrClosed \<and> sqLiteStore_Values q' kind = Inl ErrClosed \<and>
    sqLiteStore_GetAll q' = Inl ErrClosed \<and>
    sqLiteStore_Set q' now kind key val = Inr ((False, Some ErrClosed), q') \<and>
    sqLiteStore_SetFn q' now kind key fn = Inr ((False, Some ErrClosed), q') \<and>
    sqLiteStore_SetAll q' now kind values = Inr (Some ErrClosed, q') \<and>
    sqLiteStore_Delete zero q' kind key = Inr ((False, zero, Some ErrClosed), q') \<and>
    sqLiteStore_Watch q' kind opts =
       (if kind = [] then Inr (Inl ErrKindRequired, q') else Inr (Inl ErrClosed, q')) \<and>
    sqLiteStore_replay q' task = Inr q' \<and>
    sqLiteStore_Dump q' = ''sql: database is closed'' \<and>
    length (sq_chans q') = length (sq_chans q) \<and>
    (\<forall>a < length (sq_chans q'). chan_closed (sq_chans q' ! a) \<and>
        (buf (sq_chans q' ! a) = [] \<longrightarrow> chan_recv (sq_chans q' ! a) = (EndOfStream, sq_chans q' ! a)))"
proof -
  from memStore_Close_result[OF assms(1)] obtain s' where s':
    "memStore_Close s = Inr s'" "closed s'" "kinds s' = kinds s"
    "length (chans s') = length (chans s)" "\<forall>a < length (chans s'). chan_closed (chans s' ! a)"
    by blast
  from sqLiteStore_Close_result[OF assms(2)] obtain q' where q':
    "sqLiteStore_Close q = Inr q'" "sq_closed q'" "db_closed q'"
    "length (sq_chans q') = length (sq_chans q)" "\<forall>a < length (sq_chans q'). chan_closed (sq_chans q' ! a)"
    by blast
  have d: "memStore_Dump fmt s' = memStore_Dump fmt s" using s'(3) by (simp add: memStore_Dump_def)
  have dq: "sqLiteStore_Dump q' = ''sql: database is closed''" using q'(3) by (simp add: sqLiteStore_Dump_def)
  have o1: "None \<notin> set os \<longrightarrow> (\<exists>cfg'. mem_apply_opts cfg os = Inr cfg')" for cfg os
    by (induction cfg os rule: mem_apply_opts.induct) auto
  have o2: "None \<in> set os \<longrightarrow> mem_apply_opts cfg os = Inl NilFuncCall" for cfg os
    by (induction cfg os rule: mem_apply_opts.induct) auto
  have c1: "\<forall>a < length (chans s'). chan_closed (chans s' ! a) \<and>
        (buf (chans s' ! a) = [] \<longrightarrow> chan_recv (chans s' ! a) = (EndOfStream, chans s' ! a))"
    using s'(5) closed_recv by blast
  have c2: "\<forall>a < length (sq_chans q'). chan_closed (sq_chans q' ! a) \<and>
        (buf (sq_chans q' ! a) = [] \<longrightarrow> chan_recv (sq_chans q' ! a) = (EndOfStream, sq_chans q' ! a))"
    using q'(5) closed_recv by blast
  have w: "memStore_Watch s' kind opts =
       (if kind = [] then Inr (Inl ErrKindRequired, s')
        else if None \<in> set opts then Inl NilFuncCall
        else Inr (Inl ErrClosed, s'))"
    using closed_mem_ops(11)[OF s'(2), of kind opts] o1[of opts emptyCfg] o2[of opts emptyCfg]
    by auto
  show ?thesis
    apply (rule exI[of _ s'])
    apply (rule exI[of _ q'])
    apply (simp only: w closed_mem_ops(1-10)[OF s'(2)] closed_sq_ops[OF q'(2)] closed_sq_replay[OF q'(2)] s'(1) q'(1) d dq simp_thms)
    using s'(4) q'(4) c1 c2 apply blast
    done
qed

theorem after_Close_witness:
  "mem_inv ex_mem \<and> sq_inv ex_sq \<and>
   memStore_Close ex_mem = Inr ex_mem_closed \<and> sqLiteStore_Close ex_sq = Inr ex_sq_closed \<and>
   memStore_Set [] ex_mem_closed ''users'' ''a'' ''y'' = Inr ((False, Some ErrClosed), ex_mem_closed) \<and>
   memStore_Watch ex_mem_closed ''users'' [] = Inr (Inl ErrClosed, ex_mem_closed) \<and>
   sqLiteStore_Get [] ex_sq_closed ''users'' ''a'' = ([], False, Some ErrClosed) \<and>
   sqLiteStore_Watch ex_sq_closed ''users'' [] = Inr (Inl ErrClosed, ex_sq_closed) \<and>
   chan_closed (chans ex_mem_closed ! 0) \<and> chan_closed (sq_chans ex_sq_closed ! 0) \<and>
   chan_recv (chans ex_mem_closed ! 0) = (EndOfStream, chans ex_mem_closed ! 0) \<and>
   chan_recv (sq_chans ex_sq_closed ! 0) = (EndOfStream, sq_chans ex_sq_closed ! 0)"
proof -
  have h: "mem_inv ex_mem" "sq_inv ex_sq" by (simp_all add: ex_defs inv_eval)
  have e: "memStore_Close ex_mem = Inr ex_mem_closed" "sqLiteStore_Close ex_sq = Inr ex_sq_closed"
    by (simp_all add: memStore_Close_def sqLiteStore_Close_def ex_defs heap_close_def chan_close_def)
  have l: "0 < length (chans ex_mem)" "0 < length (sq_chans ex_sq)" "''users'' \<noteq> []"
    "buf (chans ex_mem_closed ! 0) = []" "buf (sq_chans ex_sq_closed ! 0) = []"
    by (simp_all add: ex_defs)
  from after_Close[OF h, of "[]" "''users''" "''a''" "[]" "''y''" _ _ "[]" _ "''t1''"]
  obtain s' q' where r: "memStore_Close ex_mem = Inr s'" "sqLiteStore_Close ex_sq = Inr q'"
    "memStore_Set [] s' ''users'' ''a'' ''y'' = Inr ((False, Some ErrClosed), s')"
    "memStore_Watch s' ''users'' [] =
       (if ''users'' = [] then Inr (Inl ErrKindRequired, s')
        else if None \<in> set ([] :: (WatchCfg \<Rightarrow> WatchCfg) option list) then Inl NilFuncCall
        else Inr (Inl ErrClosed, s'))"
    "sqLiteStore_Get [] q' ''users'' ''a'' = ([], False, Some ErrClosed)"
    "sqLiteStore_Watch q' ''users'' [] =
       (if ''users'' = [] then Inr (Inl ErrKindRequired, q') else Inr (Inl ErrClosed, q'))"
    "length (chans s') = length (chans ex_mem)"
    "\<forall>a < length (chans s'). chan_closed (chans s' ! a) \<and>
        (buf (chans s' ! a) = [] \<longrightarrow> chan_recv (chans s' ! a) = (EndOfStream, chans s' ! a))"
    "length (sq_chans q') = length (sq_chans ex_sq)"
    "\<forall>a < length (sq_chans q'). chan_closed (sq_chans q' ! a) \<and>
        (buf (sq_chans q' ! a) = [] \<longrightarrow> chan_recv (sq_chans q' ! a) = (EndOfStream, sq_chans q' ! a))"
    by blast
  from r(1,2) e have eq: "s' = ex_mem_closed" "q' = ex_sq_closed" by simp_all
  from r(8) r(7) l(1) l(4) eq have c1: "chan_closed (chans ex_mem_closed ! 0)"
    "chan_recv (chans ex_mem_closed ! 0) = (EndOfStream, chans ex_mem_closed ! 0)" by auto
  from r(10) r(9) l(2) l(5) eq have c2: "chan_closed (sq_chans ex_sq_closed ! 0)"
    "chan_recv (sq_chans ex_sq_closed ! 0) = (EndOfStream, sq_chans ex_sq_closed ! 0)" by auto
  from h e r(3-6) c1 c2 l(3) show ?thesis unfolding eq by simp
qed

text \<open>
  The claim as written fails: on a closed store \<open>Watch\<close> with the empty kind returns the
  kind-required error, the in-memory \<open>Watch\<close> panics on a nil option, and \<open>Dump\<close>, which
  has no error result, still renders the entries (in-memory) or returns the text of the
  database's own error (durable). And there is a further send: the replay goroutine of
  an in-memory \<open>Watch\<close> that has not run before \<open>Close\<close> sends on the closed channel,
  whichever branch its \<open>select\<close> would prefer, since \<open>Close\<close> leaves \<open>doneCh\<close> open.
\<close>

theorem after_Close_counterexample:
  "memStore_Close ex_mem = Inr ex_mem_closed \<and>
   memStore_Watch ex_mem_closed [] [] = Inr (Inl ErrKindRequired, ex_mem_closed) \<and>
   memStore_Watch ex_mem_closed ''users'' [None] = Inl NilFuncCall \<and>
   memStore_Dump (\<lambda>v. v) ex_mem_closed = ''users:'' @ [CHR 0x0A] @ ''  a: x'' @ [CHR 0x0A] \<and>
   sqLiteStore_Close ex_sq = Inr ex_sq_closed \<and>
   sqLiteStore_Watch ex_sq_closed [] [] = Inr (Inl ErrKindRequired, ex_sq_closed) \<and>
   sqLiteStore_Dump ex_sq_closed = ''sql: database is closed'' \<and>
   memStore_Watch ex_mem ''users'' [Some WithInitialReplay] =
     Inr (Inr (1, \<lparr>c_kind = ''users'', c_id = 2, c_doneCh = 1\<rparr>, Some ex_replay_task), ex_mem_replaying) \<and>
   memStore_Close ex_mem_replaying = Inr ex_mem_replaying_closed \<and>
   memStore_replay False ex_mem_replaying_closed ex_replay_task = Inl SendOnClosedChannel \<and>
   memStore_replay True ex_mem_replaying_closed ex_replay_task = Inl SendOnClosedChannel"
  by (simp add: memStore_Close_def sqLiteStore_Close_def memStore_Watch_def sqLiteStore_Watch_def
        memStore_Dump_def sqLiteStore_Dump_def memStore_replay_def ex_defs heap_close_def chan_close_def
        ex_mem_replaying_def ex_replay_task_def ex_mem_replaying_closed_def
        emptyCfg_def WithInitialReplay_def DefaultWatchBufferSize_def sendInitial_def mkEvent_def mem_eval)

subsection \<open>Cancel and Close, repeated\<close>

lemma alist_split:
  "map_of xs k = Some v \<Longrightarrow> \<exists>ys zs. xs = ys @ (k, v) # zs \<and> k \<notin> fst ` set ys"
proof (induction xs)
  case Nil
  then show ?case by simp
next
  case (Cons x xs)
  show ?case
  proof (cases "fst x = k")
    case True
    with Cons.prems have "x = (k, v)" by (cases x) simp
    then have "x # xs = [] @ (k, v) # xs \<and> k \<notin> fst ` set []" by simp
    then show ?thesis by blast
  next
    case False
    with Cons.prems have "map_of xs k = Some v" by (cases x) simp
    from Cons.IH[OF this] obtain ys zs where "xs = ys @ (k, v) # zs" "k \<notin> fst ` set ys" by blast
    with False have "x # xs = (x # ys) @ (k, v) # zs \<and> k \<notin> fst ` set (x # ys)" by auto
    then show ?thesis by blast
  qed
qed

lemma update_split: "k \<notin> fst ` set ys \<Longrightarrow> AList.update k v' (ys @ (k, v) # zs) = ys @ (k, v') # zs"
  by (induction ys) auto

lemma delete_split:
  "k \<notin> fst ` set ys \<Longrightarrow> k \<notin> fst ` set zs \<Longrightarrow> AList.delete k (ys @ (k, v) # zs) = ys @ zs"
  by (induction ys) (force simp: AList.delete_eq filter_id_conv)+

lemma map_of_split: "k \<notin> fst ` set ys \<Longrightarrow> map_of (ys @ (k, v) # zs) k' = (if k' = k then Some v else map_of (ys @ zs) k')"
  by (induction ys) auto

lemma regs_ok_remove:
  assumes "regs_ok h (xs @ w # ys)"
  shows "regs_ok (h[ch w := (h ! ch w)\<lparr>chan_closed := True\<rparr>]) (xs @ ys)"
  using assms by (auto simp: regs_ok_def nth_list_update image_iff)

lemma orphans_closed_remove:
  assumes "orphans_closed h (xs @ w # ys)" "ch w < length h"
  shows "orphans_closed (h[ch w := (h ! ch w)\<lparr>chan_closed := True\<rparr>]) (xs @ ys)"
  using assms by (auto simp: orphans_closed_def nth_list_update)

lemma memStore_cancel_unregistered:
  "map_of (kind_watchers s (c_kind c)) (c_id c) = None \<Longrightarrow> memStore_cancel c s = Inr s"
  by (auto simp: memStore_cancel_def kind_watchers_def split: option.splits)

lemma memStore_cancel_registered:
  assumes "mem_inv s" "cancel_ok s c" "map_of (kind_watchers s (c_kind c)) (c_id c) = Some wch"
  shows "\<exists>s1. memStore_cancel c s = Inr s1 \<and> mem_inv s1 \<and> closed s1 = closed s \<and> kinds s1 = kinds s \<and>
           map_of (kind_watchers s1 (c_kind c)) (c_id c) = None \<and>
           chans s1 = (chans s)[ch wch := (chans s ! ch wch)\<lparr>chan_closed := True\<rparr>] \<and>
           dones s1 = (dones s)[c_doneCh c := True]"
proof -
  let ?k = "c_kind c" and ?i = "c_id c" and ?d = "c_doneCh c"
  from assms(3) obtain w where w: "map_of (watchers s) ?k = Some w" "map_of w ?i = Some wch"
    by (auto simp: kind_watchers_def split: option.splits)
  from assms(1) have dk: "distinct (map fst (watchers s))"
    and di: "\<forall>(kind, m) \<in> set (watchers s). distinct (map fst m)"
    and r: "regs_ok (chans s) (all_watchers s)" and o: "orphans_closed (chans s) (all_watchers s)"
    and cl: "closed s \<longrightarrow> all_watchers s = []"
    by (simp_all add: mem_inv_def)
  from alist_split[OF w(1)] obtain A B where AB: "watchers s = A @ (?k, w) # B" "?k \<notin> fst ` set A" by blast
  from alist_split[OF w(2)] obtain us vs where uv: "w = us @ (?i, wch) # vs" "?i \<notin> fst ` set us" by blast
  from di AB(1) have dw: "distinct (map fst w)" by auto
  with uv have ivs: "?i \<notin> fst ` set vs" by auto
  let ?w' = "us @ vs"
  have del: "AList.delete ?i w = ?w'" using uv ivs by (simp add: delete_split)
  have upd: "AList.update ?k ?w' (watchers s) = A @ (?k, ?w') # B" using AB by (simp add: update_split)
  let ?X = "concat (map (\<lambda>(kind, m). map snd m) A) @ map snd us"
  let ?Y = "map snd vs @ concat (map (\<lambda>(kind, m). map snd m) B)"
  have aw: "all_watchers s = ?X @ wch # ?Y" using AB uv by (simp add: all_watchers_def)
  from r aw have valid: "ch wch < length (chans s)" "\<not> chan_closed (chans s ! ch wch)"
    by (auto simp: regs_ok_def)
  from assms(2,3) have dn: "?d < length (dones s)" "\<not> dones s ! ?d" by (simp_all add: cancel_ok_def)
  let ?s1 = "s\<lparr>watchers := A @ (?k, ?w') # B, dones := (dones s)[?d := True],
               chans := (chans s)[ch wch := (chans s ! ch wch)\<lparr>chan_closed := True\<rparr>]\<rparr>"
  have 1: "memStore_cancel c s = Inr ?s1"
    using w valid dn
    by (simp add: memStore_cancel_def Let_def del upd done_close_def heap_close_def chan_close_def)
  have aw1: "all_watchers ?s1 = ?X @ ?Y" by (simp add: all_watchers_def)
  have inv: "mem_inv ?s1"
    unfolding mem_inv_def
  proof (intro conjI)
    show "distinct (map fst (watchers ?s1))" using dk AB by simp
    show "\<forall>(kind, m) \<in> set (watchers ?s1). distinct (map fst m)" using di AB dw uv by auto
    show "regs_ok (chans ?s1) (all_watchers ?s1)"
      unfolding aw1 using regs_ok_remove[of "chans s" ?X wch ?Y] r aw by simp
    show "orphans_closed (chans ?s1) (all_watchers ?s1)"
      unfolding aw1 using orphans_closed_remove[of "chans s" ?X wch ?Y] o aw valid by simp
    show "closed ?s1 \<longrightarrow> all_watchers ?s1 = []" using cl aw by simp
  qed
  have "kind_watchers ?s1 ?k = ?w'" using AB(2) by (simp add: kind_watchers_def map_of_split del: map_of_append)
  then have gone: "map_of (kind_watchers ?s1 ?k) ?i = None"
    using uv(2) ivs by (simp add: map_of_eq_None_iff)
  from 1 inv gone show ?thesis by (intro exI[of _ ?s1]) simp
qed


lemma memStore_cancel_result:
  assumes "mem_inv s" "cancel_ok s c"
  shows "\<exists>s1. memStore_cancel c s = Inr s1 \<and> mem_inv s1 \<and> closed s1 = closed s \<and>
           map_of (kind_watchers s1 (c_kind c)) (c_id c) = None"
proof (cases "map_of (kind_watchers s (c_kind c)) (c_id c)")
  case None
  with assms(1) memStore_cancel_unregistered[OF None] show ?thesis by auto
next
  case (Some wch)
  from memStore_cancel_registered[OF assms Some] show ?thesis by blast
qed

lemma sqLiteStore_cancel_unregistered:
  "q_w c \<notin> set (kind_subs q (q_kind c)) \<Longrightarrow> sqLiteStore_cancel c q = Inr q"
  by (auto simp: sqLiteStore_cancel_def kind_subs_def split: option.splits)

lemma sqLiteStore_cancel_registered:
  assumes "sq_inv q" "q_w c \<in> set (kind_subs q (q_kind c))"
  shows "\<exists>q1. sqLiteStore_cancel c q = Inr q1 \<and> sq_inv q1 \<and> sq_closed q1 = sq_closed q \<and>
           zestor_kv q1 = zestor_kv q \<and> q_w c \<notin> set (kind_subs q1 (q_kind c)) \<and>
           sq_chans q1 = (sq_chans q)[ch (q_w c) := (sq_chans q ! ch (q_w c))\<lparr>chan_closed := True\<rparr>]"
proof -
  let ?k = "q_kind c" and ?w = "q_w c"
  from assms(2) obtain m where m1: "subs q = Some m"
    by (cases "subs q") (simp_all add: kind_subs_def)
  with assms(2) obtain ws where m2: "map_of m ?k = Some ws" "?w \<in> set ws"
    by (cases "map_of m ?k") (simp_all add: kind_subs_def)
  note m = m1 m2
  from assms(1) m(1) have dk: "distinct (map fst m)"
    and r: "regs_ok (sq_chans q) (concat (map snd m))" and o: "orphans_closed (sq_chans q) (concat (map snd m))"
    and op: "\<not> sq_closed q" "\<not> db_closed q"
    by (auto simp: sq_inv_def all_subs_def)
  from alist_split[OF m(2)] obtain A B where AB: "m = A @ (?k, ws) # B" "?k \<notin> fst ` set A" by blast
  with dk have kB: "?k \<notin> fst ` set B" by auto
  from r AB have "regs_ok (sq_chans q) ws" by (auto simp: regs_ok_def)
  then have dws: "distinct ws" by (auto simp: regs_ok_def distinct_map)
  from split_list[OF m(3)] obtain us vs where uv: "ws = us @ ?w # vs" by blast
  with dws have nin: "?w \<notin> set us" "?w \<notin> set vs" by auto
  have rem: "removeAll ?w ws = us @ vs" using uv nin by simp
  let ?m' = "if length (us @ vs) = 0 then AList.delete ?k m else AList.update ?k (us @ vs) m"
  let ?X = "concat (map snd A) @ us" and ?Y = "vs @ concat (map snd B)"
  have all: "concat (map snd m) = ?X @ ?w # ?Y" using AB uv by simp
  have all': "concat (map snd ?m') = ?X @ ?Y"
    using AB kB by (auto simp: delete_split update_split)
  have keys': "distinct (map fst ?m')"
    using dk AB kB by (auto simp: delete_split update_split)
  from r all have valid: "ch ?w < length (sq_chans q)" "\<not> chan_closed (sq_chans q ! ch ?w)"
    by (auto simp: regs_ok_def)
  let ?q1 = "q\<lparr>subs := Some ?m', sq_chans := (sq_chans q)[ch ?w := (sq_chans q ! ch ?w)\<lparr>chan_closed := True\<rparr>]\<rparr>"
  have 1: "sqLiteStore_cancel c q = Inr ?q1"
    using m valid by (simp add: sqLiteStore_cancel_def Let_def rem heap_close_def chan_close_def)
  have inv: "sq_inv ?q1"
    unfolding sq_inv_def
  proof (intro conjI)
    show "distinct (map fst (case subs ?q1 of None \<Rightarrow> [] | Some m \<Rightarrow> m))" using keys' by simp
    show "regs_ok (sq_chans ?q1) (all_subs ?q1)"
      using regs_ok_remove[of "sq_chans q" ?X ?w ?Y] r all all' by (simp add: all_subs_def)
    show "orphans_closed (sq_chans ?q1) (all_subs ?q1)"
      using orphans_closed_remove[of "sq_chans q" ?X ?w ?Y] o all all' valid by (simp add: all_subs_def)
    show "sq_closed ?q1 \<longleftrightarrow> subs ?q1 = None" using op by simp
    show "sq_closed ?q1 \<longleftrightarrow> db_closed ?q1" using op by simp
  qed
  have none: "map_of (A @ B) ?k = None" using AB(2) kB by (simp add: map_of_eq_None_iff image_Un)
  have "kind_subs ?q1 ?k = us @ vs"
  proof (cases "us @ vs = []")
    case True
    then show ?thesis using AB kB none by (simp add: kind_subs_def delete_split map_add_def)
  next
    case False
    then show ?thesis using AB kB
      by (auto simp: kind_subs_def update_split map_of_split simp del: map_of_append)
  qed
  with nin have gone: "?w \<notin> set (kind_subs ?q1 ?k)" by simp
  from 1 inv gone show ?thesis by (intro exI[of _ ?q1]) simp
qed

lemma sqLiteStore_cancel_result:
  assumes "sq_inv q"
  shows "\<exists>q1. sqLiteStore_cancel c q = Inr q1 \<and> sq_inv q1 \<and> sq_closed q1 = sq_closed q \<and>
           q_w c \<notin> set (kind_subs q1 (q_kind c))"
proof (cases "q_w c \<in> set (kind_subs q (q_kind c))")
  case True
  from sqLiteStore_cancel_registered[OF assms True] show ?thesis by blast
next
  case False
  with assms sqLiteStore_cancel_unregistered[OF False] show ?thesis by auto
qed

lemma cancel_Close_mem:
  assumes "mem_inv s" "cancel_ok s c"
  shows "(\<exists>s1. memStore_cancel c s = Inr s1 \<and> memStore_cancel c s1 = Inr s1 \<and> closed s1 = closed s \<and>
            (\<exists>s2. memStore_Close s1 = Inr s2 \<and> memStore_Close s2 = Inr s2 \<and> memStore_cancel c s2 = Inr s2)) \<and>
         (\<exists>s3. memStore_Close s = Inr s3 \<and> memStore_Close s3 = Inr s3 \<and> memStore_cancel c s3 = Inr s3)"
proof -
  have after: "\<exists>s'. memStore_Close t = Inr s' \<and> memStore_Close s' = Inr s' \<and> memStore_cancel c s' = Inr s'"
    if "mem_inv t" for t :: "'a memStore"
  proof -
    from memStore_Close_result[OF that] obtain s' where s': "memStore_Close t = Inr s'" "closed s'"
      "\<forall>kd. kind_watchers s' kd = []" by blast
    from s'(2) have "memStore_Close s' = Inr s'" by (simp add: memStore_Close_def)
    moreover from s'(3) have "memStore_cancel c s' = Inr s'" by (intro memStore_cancel_unregistered) simp
    ultimately show ?thesis using s'(1) by blast
  qed
  from memStore_cancel_result[OF assms] obtain s1 where s1: "memStore_cancel c s = Inr s1" "mem_inv s1"
    "closed s1 = closed s" "map_of (kind_watchers s1 (c_kind c)) (c_id c) = None" by blast
  from s1(4) have "memStore_cancel c s1 = Inr s1" by (rule memStore_cancel_unregistered)
  with s1 after[OF s1(2)] after[OF assms(1)] show ?thesis by blast
qed

lemma cancel_Close_sq:
  assumes "sq_inv q"
  shows "(\<exists>q1. sqLiteStore_cancel c q = Inr q1 \<and> sqLiteStore_cancel c q1 = Inr q1 \<and> sq_closed q1 = sq_closed q \<and>
            (\<exists>q2. sqLiteStore_Close q1 = Inr q2 \<and> sqLiteStore_Close q2 = Inr q2 \<and> sqLiteStore_cancel c q2 = Inr q2)) \<and>
         (\<exists>q3. sqLiteStore_Close q = Inr q3 \<and> sqLiteStore_Close q3 = Inr q3 \<and> sqLiteStore_cancel c q3 = Inr q3)"
proof -
  have after: "\<exists>q'. sqLiteStore_Close t = Inr q' \<and> sqLiteStore_Close q' = Inr q' \<and> sqLiteStore_cancel c q' = Inr q'"
    if "sq_inv t" for t :: "'a sqLiteStore"
  proof -
    from sqLiteStore_Close_result[OF that] obtain q' where q': "sqLiteStore_Close t = Inr q'" "sq_closed q'"
      "subs q' = None" by blast
    from q'(2) have "sqLiteStore_Close q' = Inr q'" by (simp add: sqLiteStore_Close_def)
    moreover from q'(3) have "sqLiteStore_cancel c q' = Inr q'" by (simp add: sqLiteStore_cancel_def)
    ultimately show ?thesis using q'(1) by blast
  qed
  from sqLiteStore_cancel_result[OF assms] obtain q1 where q1: "sqLiteStore_cancel c q = Inr q1" "sq_inv q1"
    "sq_closed q1 = sq_closed q" "q_w c \<notin> set (kind_subs q1 (q_kind c))" by blast
  from q1(4) have "sqLiteStore_cancel c q1 = Inr q1" by (rule sqLiteStore_cancel_unregistered)
  with q1 after[OF q1(2)] after[OF assms] show ?thesis by blast
qed

text \<open>
  C9. On a store with a sound registry (and, in the in-memory engine, a cancel closure
  whose \<open>doneCh\<close> is still open while its watcher is registered) no call of a cancel
  function or of \<open>Close\<close> panics: each of them returns a store. Calling the cancel
  function a second time, calling it after \<open>Close\<close>, and calling \<open>Close\<close> a second time
  all return the store unchanged (so the registry and the closed flag stay as they
  were), whether \<open>Close\<close> comes after a cancel or first; a cancel leaves the closed flag
  as it was.
\<close>

theorem cancel_and_Close_idempotent:
  assumes "mem_inv s" "cancel_ok s c" "sq_inv q"
  shows "(\<exists>s1. memStore_cancel c s = Inr s1 \<and> memStore_cancel c s1 = Inr s1 \<and> closed s1 = closed s \<and>
            (\<exists>s2. memStore_Close s1 = Inr s2 \<and> memStore_Close s2 = Inr s2 \<and> memStore_cancel c s2 = Inr s2)) \<and>
         (\<exists>s3. memStore_Close s = Inr s3 \<and> memStore_Close s3 = Inr s3 \<and> memStore_cancel c s3 = Inr s3) \<and>
         (\<exists>q1. sqLiteStore_cancel c' q = Inr q1 \<and> sqLiteStore_cancel c' q1 = Inr q1 \<and> sq_closed q1 = sq_closed q \<and>
            (\<exists>q2. sqLiteStore_Close q1 = Inr q2 \<and> sqLiteStore_Close q2 = Inr q2 \<and> sqLiteStore_cancel c' q2 = Inr q2)) \<and>
         (\<exists>q3. sqLiteStore_Close q = Inr q3 \<and> sqLiteStore_Close q3 = Inr q3 \<and> sqLiteStore_cancel c' q3 = Inr q3)"
  using cancel_Close_mem[OF assms(1,2)] cancel_Close_sq[OF assms(3), of c'] by blast

theorem cancel_and_Close_idempotent_witness:
  "mem_inv ex_mem \<and> cancel_ok ex_mem \<lparr>c_kind = ''users'', c_id = 1, c_doneCh = 0\<rparr> \<and> sq_inv ex_sq \<and>
   memStore_cancel \<lparr>c_kind = ''users'', c_id = 1, c_doneCh = 0\<rparr> ex_mem =
     Inr (ex_mem_closed\<lparr>closed := False, dones := [True]\<rparr>) \<and>
   memStore_cancel \<lparr>c_kind = ''users'', c_id = 1, c_doneCh = 0\<rparr> (ex_mem_closed\<lparr>closed := False, dones := [True]\<rparr>) =
     Inr (ex_mem_closed\<lparr>closed := False, dones := [True]\<rparr>) \<and>
   memStore_Close ex_mem = Inr ex_mem_closed \<and>
   memStore_Close ex_mem_closed = Inr ex_mem_closed \<and>
   memStore_cancel \<lparr>c_kind = ''users'', c_id = 1, c_doneCh = 0\<rparr> ex_mem_closed = Inr ex_mem_closed \<and>
   sqLiteStore_cancel \<lparr>q_kind = ''users'', q_w = \<lparr>ch = 0, eventTypes = None\<rparr>\<rparr> ex_sq =
     Inr (ex_sq_closed\<lparr>sq_closed := False, db_closed := False, subs := Some []\<rparr>) \<and>
   sqLiteStore_cancel \<lparr>q_kind = ''users'', q_w = \<lparr>ch = 0, eventTypes = None\<rparr>\<rparr>
       (ex_sq_closed\<lparr>sq_closed := False, db_closed := False, subs := Some []\<rparr>) =
     Inr (ex_sq_closed\<lparr>sq_closed := False, db_closed := False, subs := Some []\<rparr>) \<and>
   sqLiteStore_Close ex_sq = Inr ex_sq_closed \<and>
   sqLiteStore_Close ex_sq_closed = Inr ex_sq_closed \<and>
   sqLiteStore_cancel \<lparr>q_kind = ''users'', q_w = \<lparr>ch = 0, eventTypes = None\<rparr>\<rparr> ex_sq_closed = Inr ex_sq_closed"
proof -
  let ?c = "\<lparr>c_kind = ''users'', c_id = 1, c_doneCh = 0\<rparr>"
  let ?c' = "\<lparr>q_kind = ''users'', q_w = \<lparr>ch = 0, eventTypes = None\<rparr>\<rparr>"
  have h: "mem_inv ex_mem" "cancel_ok ex_mem ?c" "sq_inv ex_sq"
    by (simp_all add: ex_defs inv_eval kind_watchers_def)
  have e: "memStore_cancel ?c ex_mem = Inr (ex_mem_closed\<lparr>closed := False, dones := [True]\<rparr>)"
    "memStore_Close ex_mem = Inr ex_mem_closed"
    "sqLiteStore_cancel ?c' ex_sq = Inr (ex_sq_closed\<lparr>sq_closed := False, db_closed := False, subs := Some []\<rparr>)"
    "sqLiteStore_Close ex_sq = Inr ex_sq_closed"
    by (simp_all add: memStore_cancel_def memStore_Close_def sqLiteStore_cancel_def sqLiteStore_Close_def
          ex_defs heap_close_def chan_close_def done_close_def AList.delete_eq)
  from cancel_and_Close_idempotent[OF h, of ?c'] e show ?thesis
    using h by auto
qed

subsection \<open>The result of SetFn\<close>

lemma memStore_SetFn_false:
  "memStore_SetFn s kind key fn = Inr ((changed, err), s') \<Longrightarrow> \<not> changed"
  by (auto simp: memStore_SetFn_def Let_def split: if_splits option.splits sum.splits)

lemma sqLiteStore_SetFn_false:
  "sqLiteStore_SetFn s now kind key fn = Inr ((changed, err), s') \<Longrightarrow> \<not> changed"
  by (auto simp: sqLiteStore_SetFn_def split: if_splits option.splits sum.splits)

text \<open>
  C10. In both engines every return of \<open>SetFn\<close> carries \<open>false\<close> as its boolean result
  (named \<open>changed\<close> in the \<open>Writer\<close> interface): on every successful call, and also on
  the failing ones. The instance below is a call whose transform changes the value: the
  new value is stored, the update event is delivered, and the result is still \<open>false\<close>.
\<close>

theorem SetFn_changed_always_false:
  "(memStore_SetFn s kind key fn = Inr ((changed, err), s') \<longrightarrow> \<not> changed) \<and>
   (sqLiteStore_SetFn q now kind key fn = Inr ((changed', err'), q') \<longrightarrow> \<not> changed')"
  using memStore_SetFn_false sqLiteStore_SetFn_false by blast

theorem SetFn_changed_always_false_witness:
  "memStore_SetFn ex_mem ''users'' ''a'' (\<lambda>v. Inr (v @ ''!'')) =
     Inr ((False, None),
          ex_mem\<lparr>kinds := [(''users'', [(''a'', ''x!'')])],
                 chans := [\<lparr>buf = [\<lparr>Kind = ''users'', Name = ''a'', EventType = EventTypeUpdate, Object = ''x!''\<rparr>],
                            cap = 128, chan_closed = False\<rparr>]\<rparr>) \<and>
   sqLiteStore_SetFn ex_sq ''t1'' ''users'' ''a'' (\<lambda>v. Inr (v @ ''!'')) =
     Inr ((False, None),
          ex_sq\<lparr>zestor_kv := [((''users'', ''a''), \<lparr>col_value = ''x!'', col_version = 2, col_updated_at = ''t1''\<rparr>)],
                sq_chans := [\<lparr>buf = [\<lparr>Kind = ''users'', Name = ''a'', EventType = EventTypeUpdate, Object = ''x!''\<rparr>],
                               cap = 128, chan_closed = False\<rparr>]\<rparr>)"
proof -
  obtain b where m:
    "memStore_SetFn ex_mem ''users'' ''a'' (\<lambda>v. Inr (v @ ''!'')) =
       Inr ((b, None),
            ex_mem\<lparr>kinds := [(''users'', [(''a'', ''x!'')])],
                   chans := [\<lparr>buf = [\<lparr>Kind = ''users'', Name = ''a'', EventType = EventTypeUpdate, Object = ''x!''\<rparr>],
                              cap = 128, chan_closed = False\<rparr>]\<rparr>)"
    by (auto simp: memStore_SetFn_def ex_mem_def ex_mem_watched_def mem_eval)
  obtain b' where q:
    "sqLiteStore_SetFn ex_sq ''t1'' ''users'' ''a'' (\<lambda>v. Inr (v @ ''!'')) =
       Inr ((b', None),
            ex_sq\<lparr>zestor_kv := [((''users'', ''a''), \<lparr>col_value = ''x!'', col_version = 2, col_updated_at = ''t1''\<rparr>)],
                  sq_chans := [\<lparr>buf = [\<lparr>Kind = ''users'', Name = ''a'', EventType = EventTypeUpdate, Object = ''x!''\<rparr>],
                                 cap = 128, chan_closed = False\<rparr>]\<rparr>)"
    by (auto simp: sqLiteStore_SetFn_def ex_sq_def sq_eval)
  from SetFn_changed_always_false[of ex_mem "''users''" "''a''" "\<lambda>v. Inr (v @ ''!'')" b None _ ex_sq "''t1''" b' None] m q
  show ?thesis by simp
qed

subsection \<open>The invariants are kept\<close>

text \<open>
  The theorems above are stated for stores that satisfy \<open>mem_inv\<close> or \<open>sq_inv\<close>. Both
  hold of a new store and are kept by every operation that returns, so they hold of
  every store a sequential program can reach. For the in-memory \<open>Watch\<close> the new id has
  to be unused in its kind, which is so until the 64-bit counter wraps around.
\<close>

lemma mem_inv_New: "mem_inv (NewMemStore deepEqual opt)"
  by (simp add: NewMemStore_def inv_eval)

lemma mem_inv_Set:
  assumes "mem_inv s" "memStore_Set zero s kind key v = Inr (r, s')"
  shows "mem_inv s'"
proof (cases "closed s")
  case True
  with assms show ?thesis by (simp add: memStore_Set_def)
next
  case False
  show ?thesis
  proof (cases "case validationFns s kind of None \<Rightarrow> None | Some fn \<Rightarrow> fn v")
    case (Some err)
    with assms False have "s' = ensureKind s kind" by (simp add: memStore_Set_def Let_def)
    with assms(1) show ?thesis by (simp add: mem_inv_ensureKind)
  next
    case None
    from memStore_Set_effect[OF assms(1) False None, of zero key] assms(2) mem_inv_ensureKind[OF assms(1), of kind]
    show ?thesis by (auto simp: Let_def mem_inv_def all_watchers_def split: if_splits)
  qed
qed

lemma mem_inv_SetFn:
  assumes "mem_inv s" "memStore_SetFn s kind key fn = Inr (r, s')"
  shows "mem_inv s'"
proof (cases "closed s")
  case True
  with assms show ?thesis by (simp add: memStore_SetFn_def)
next
  case False
  show ?thesis
  proof (cases "map_of (kind_entries s kind) key")
    case None
    with assms False have "s' = ensureKind s kind" by (simp add: memStore_SetFn_def Let_def)
    with assms(1) show ?thesis by (simp add: mem_inv_ensureKind)
  next
    case (Some prev)
    show ?thesis
    proof (cases "fn prev")
      case (Inl err)
      with assms False Some have "s' = ensureKind s kind" by (simp add: memStore_SetFn_def Let_def)
      with assms(1) show ?thesis by (simp add: mem_inv_ensureKind)
    next
      case (Inr nv)
      from memStore_SetFn_effect[where fn=fn and prev=prev and s=s and kind=kind and key=key, OF assms(1) False Some Inr] assms(2) mem_inv_ensureKind[OF assms(1), of kind]
      show ?thesis by (auto simp: mem_inv_def all_watchers_def)
    qed
  qed
qed

lemma mem_inv_Delete:
  assumes "mem_inv s" "memStore_Delete zero s kind key = Inr (r, s')"
  shows "mem_inv s'"
proof (cases "closed s")
  case True
  with assms show ?thesis by (simp add: memStore_Delete_def)
next
  case False
  show ?thesis
  proof (cases "map_of (kind_entries s kind) key")
    case None
    with assms False have "s' = ensureKind s kind" by (simp add: memStore_Delete_def Let_def)
    with assms(1) show ?thesis by (simp add: mem_inv_ensureKind)
  next
    case (Some prev)
    from memStore_Delete_effect[OF assms(1) False Some, of zero] assms(2) mem_inv_ensureKind[OF assms(1), of kind]
    show ?thesis by (auto simp: mem_inv_def all_watchers_def)
  qed
qed

lemma mem_inv_SetAll:
  assumes "mem_inv s" "memStore_SetAll s kind values = Inr (r, s')"
  shows "mem_inv s'"
proof (cases "closed s")
  case True
  with assms show ?thesis by (simp add: memStore_SetAll_def)
next
  case False
  show ?thesis
  proof (cases "case validationFns s kind of None \<Rightarrow> None | Some fn \<Rightarrow> validate_values fn values")
    case (Some err)
    with assms False have "s' = ensureKind s kind" by (simp add: memStore_SetAll_def Let_def)
    with assms(1) show ?thesis by (simp add: mem_inv_ensureKind)
  next
    case None
    obtain m cr up where w: "setAll_write (kind_entries s kind) [] [] values = (m, cr, up)"
      by (cases "setAll_write (kind_entries s kind) [] [] values") auto
    from assms(2) False None w setAll_notify_ok[OF mem_regs[OF assms(1)], of kind kind cr up]
    have "s' = (ensureKind s kind)\<lparr>kinds := AList.update kind m (kinds (ensureKind s kind)),
              chans := deliver_all (map snd (kind_watchers s kind))
                 (map (mkEvent kind EventTypeCreate) cr @ map (mkEvent kind EventTypeUpdate) up) (chans s)\<rparr>"
      by (simp add: memStore_SetAll_def Let_def)
    with mem_inv_ensureKind[OF assms(1), of kind] show ?thesis
      by (auto simp: mem_inv_def all_watchers_def)
  qed
qed

lemma replay_loop_shape:
  "replay_loop pick dn kind a h m = Inr (h', e) \<Longrightarrow>
   length h' = length h \<and> (\<forall>b < length h. chan_closed (h' ! b) = chan_closed (h ! b))"
proof (induction m arbitrary: h)
  case Nil
  then show ?case by simp
next
  case (Cons kv m)
  show ?case
  proof (cases "length h \<le> a \<or> (dn \<and> (\<not> (chan_closed (h ! a) \<or> length (buf (h ! a)) < cap (h ! a)) \<or> pick))
                 \<or> \<not> (chan_closed (h ! a) \<or> length (buf (h ! a)) < cap (h ! a))")
    case True
    with Cons.prems show ?thesis by (auto simp: Let_def split: if_splits)
  next
    case False
    then have a: "a < length h" by simp
    from False Cons.prems obtain c' where c': "chan_send (h ! a) (mkEvent kind EventTypeCreate kv) = Inr c'"
      "replay_loop pick dn kind a (h[a := c']) m = Inr (h', e)"
      by (auto simp: Let_def split: if_splits sum.splits)
    from c'(1) have cl: "chan_closed c' = chan_closed (h ! a)"
      by (auto simp: chan_send_def split: if_splits)
    from Cons.IH[OF c'(2)] a cl show ?thesis
      by (auto simp: nth_list_update)
  qed
qed

lemma mem_inv_replay:
  assumes "mem_inv s" "memStore_replay pick s t = Inr (s', e)"
  shows "mem_inv s'"
proof -
  from assms(2) obtain h where h: "s' = s\<lparr>chans := h\<rparr>"
    "replay_loop pick (dones s ! r_doneCh t) (r_kind t) (r_ch t) (chans s) (r_snap t) = Inr (h, e)"
    by (auto simp: memStore_replay_def split: if_splits sum.splits)
  from replay_loop_shape[OF h(2)] assms(1) show ?thesis
    unfolding h(1) by (auto simp: mem_inv_def all_watchers_def regs_ok_def orphans_closed_def)
qed

lemma regs_ok_insert:
  assumes "regs_ok h (X @ Y)" "\<not> chan_closed c" "ch w = length h"
  shows "regs_ok (h @ [c]) (X @ w # Y)"
proof -
  from assms(1) have d: "distinct (map ch (X @ Y))"
    and b: "\<forall>x \<in> set (X @ Y). ch x < length h \<and> \<not> chan_closed (h ! ch x)"
    by (simp_all add: regs_ok_def)
  from b assms(3) have f: "ch w \<notin> ch ` set (X @ Y)" by auto
  from d f have "distinct (map ch (X @ w # Y))" by auto
  moreover from b assms(2,3) have "\<forall>x \<in> set (X @ w # Y). ch x < length (h @ [c]) \<and> \<not> chan_closed ((h @ [c]) ! ch x)"
    by (auto simp: nth_append less_Suc_eq)
  ultimately show ?thesis by (simp add: regs_ok_def)
qed

lemma orphans_closed_insert:
  assumes "orphans_closed h (X @ Y)" "ch w = length h"
  shows "orphans_closed (h @ [c]) (X @ w # Y)"
  using assms by (auto simp: orphans_closed_def nth_append)

lemma mem_inv_Watch:
  assumes "mem_inv s" "memStore_Watch s kind opts = Inr (Inr (a, c, task), s')"
    and "map_of (kind_watchers s kind) (watcherID s + 1) = None"
  shows "mem_inv s' \<and> cancel_ok s' c"
proof -
  from assms(2) have k: "kind \<noteq> []" and op: "\<not> closed s"
    by (auto simp: memStore_Watch_def split: if_splits sum.splits)
  from assms(2) k obtain cfg where cfg: "mem_apply_opts emptyCfg opts = Inr cfg"
    by (cases "mem_apply_opts emptyCfg opts") (simp_all add: memStore_Watch_def)
  let ?i = "watcherID s + 1"
  let ?wch = "\<lparr>ch = length (chans s), eventTypes = EventTypes cfg\<rparr>"
  let ?new = "make_chan (nat (if BufferSize cfg \<le> 0 then DefaultWatchBufferSize else BufferSize cfg))"
  let ?e = "ensureKind s kind"
  from memStore_Watch_effect[OF k op cfg] assms(2)
  have s': "s' = ?e\<lparr>watcherID := ?i, chans := chans s @ [?new],
             watchers := AList.update kind (AList.update ?i ?wch (kind_watchers s kind)) (watchers ?e),
             dones := dones s @ [False]\<rparr>"
    and c: "c = \<lparr>c_kind = kind, c_id = ?i, c_doneCh = length (dones s)\<rparr>"
    by simp_all
  have inv: "mem_inv ?e" using assms(1) by (rule mem_inv_ensureKind)
  from ensureKind_registered(2)[of s kind] obtain w where w: "map_of (watchers ?e) kind = Some w" by auto
  then have kw: "kind_watchers s kind = w" using kind_watchers_ensureKind[of s kind kind] by (simp add: kind_watchers_def)
  from alist_split[OF w] obtain A B where AB: "watchers ?e = A @ (kind, w) # B" "kind \<notin> fst ` set A" by blast
  from assms(3) kw have fresh: "?i \<notin> fst ` set w" by (simp add: map_of_eq_None_iff)
  have upd: "AList.update kind (AList.update ?i ?wch (kind_watchers s kind)) (watchers ?e) = A @ (kind, w @ [(?i, ?wch)]) # B"
    using AB fresh kw by (simp add: update_split update_absent)
  from inv have dk: "distinct (map fst (watchers ?e))"
    and di: "\<forall>(kind, m) \<in> set (watchers ?e). distinct (map fst m)"
    and r: "regs_ok (chans s) (all_watchers ?e)" and o: "orphans_closed (chans s) (all_watchers ?e)"
    by (simp_all add: mem_inv_def)
  let ?X = "concat (map (\<lambda>(kind, m). map snd m) A) @ map snd w"
  let ?Y = "concat (map (\<lambda>(kind, m). map snd m) B)"
  have aw: "all_watchers ?e = ?X @ ?Y" using AB by (simp add: all_watchers_def)
  have aw': "all_watchers s' = ?X @ ?wch # ?Y" unfolding s' upd by (simp add: all_watchers_def)
  have 1: "distinct (map fst (watchers s'))" unfolding s' upd using dk AB by simp
  have 2: "\<forall>(kind, m) \<in> set (watchers s'). distinct (map fst m)"
    unfolding s' upd using di AB fresh by auto
  have 3: "regs_ok (chans s') (all_watchers s')"
    unfolding aw' using regs_ok_insert[of "chans s" ?X ?Y ?new ?wch] r aw unfolding s'
    by (simp add: make_chan_def)
  have 4: "orphans_closed (chans s') (all_watchers s')"
    unfolding aw' using orphans_closed_insert[of "chans s" ?X ?Y ?wch ?new] o aw unfolding s'
    by simp
  have 5: "closed s' \<longrightarrow> all_watchers s' = []" unfolding s' using op by simp
  have 6: "cancel_ok s' c" unfolding c s' by (simp add: cancel_ok_def nth_append)
  from 1 2 3 4 5 6 show ?thesis by (simp add: mem_inv_def)
qed

text \<open>
  The writes leave \<open>doneCh\<close> channels and registry entries alone, so a cancel closure
  that is sound stays so.
\<close>

lemma kind_watchers_cong: "watchers s' = watchers s \<Longrightarrow> kind_watchers s' kd = kind_watchers s kd"
  by (simp add: kind_watchers_def)

lemma cancel_ok_cong:
  "dones s' = dones s \<Longrightarrow> kind_watchers s' (c_kind c) = kind_watchers s (c_kind c) \<Longrightarrow>
   cancel_ok s' c = cancel_ok s c"
  by (simp add: cancel_ok_def)

lemma cancel_ok_kept:
  assumes "dones s' = dones s" "watchers s' = watchers s \<or> watchers s' = watchers (ensureKind s kind)"
  shows "cancel_ok s' c = cancel_ok s c"
proof (rule cancel_ok_cong[OF assms(1)])
  from assms(2) show "kind_watchers s' (c_kind c) = kind_watchers s (c_kind c)"
  proof
    assume "watchers s' = watchers s"
    then show ?thesis by (rule kind_watchers_cong)
  next
    assume "watchers s' = watchers (ensureKind s kind)"
    then have "kind_watchers s' (c_kind c) = kind_watchers (ensureKind s kind) (c_kind c)" by (rule kind_watchers_cong)
    then show ?thesis by simp
  qed
qed

lemma memStore_Set_frame:
  assumes "memStore_Set zero s kind key v = Inr (r, s')"
  shows "dones s' = dones s \<and> (watchers s' = watchers s \<or> watchers s' = watchers (ensureKind s kind))"
  using assms
  by (auto simp: memStore_Set_def Let_def split: if_splits option.splits sum.splits)

lemma memStore_SetFn_frame:
  assumes "memStore_SetFn s kind key fn = Inr (r, s')"
  shows "dones s' = dones s \<and> (watchers s' = watchers s \<or> watchers s' = watchers (ensureKind s kind))"
  using assms
  by (auto simp: memStore_SetFn_def Let_def split: if_splits option.splits sum.splits)

lemma memStore_Delete_frame:
  assumes "memStore_Delete zero s kind key = Inr (r, s')"
  shows "dones s' = dones s \<and> (watchers s' = watchers s \<or> watchers s' = watchers (ensureKind s kind))"
  using assms
  by (auto simp: memStore_Delete_def Let_def split: if_splits option.splits sum.splits)

lemma memStore_SetAll_frame:
  assumes "memStore_SetAll s kind values = Inr (r, s')"
  shows "dones s' = dones s \<and> (watchers s' = watchers s \<or> watchers s' = watchers (ensureKind s kind))"
  using assms
  by (auto simp: memStore_SetAll_def Let_def split: if_splits option.splits sum.splits prod.splits)

text \<open>The durable engine.\<close>

lemma sq_inv_New: "sq_inv (New c t)"
  by (simp add: New_def inv_eval)

lemma sq_inv_publish:
  assumes "sq_inv s" "publish (s\<lparr>zestor_kv := t\<rparr>) kind ev = Inr s'"
  shows "sq_inv s'"
proof -
  from sq_regs[OF assms(1), of kind] have "regs_ok (sq_chans (s\<lparr>zestor_kv := t\<rparr>)) (kind_subs (s\<lparr>zestor_kv := t\<rparr>) kind)"
    by simp
  from publish_ok[OF this, of ev] assms show ?thesis
    by (auto simp: sq_inv_def all_subs_def)
qed

lemma sq_inv_publish_all:
  assumes "sq_inv s" "publish_all (s\<lparr>zestor_kv := t\<rparr>) kind evs = Inr s'"
  shows "sq_inv s'"
proof -
  from sq_regs[OF assms(1), of kind] have "regs_ok (sq_chans (s\<lparr>zestor_kv := t\<rparr>)) (kind_subs (s\<lparr>zestor_kv := t\<rparr>) kind)"
    by simp
  from publish_all_ok[OF this, of evs] assms show ?thesis
    by (auto simp: sq_inv_def all_subs_def)
qed

lemma sq_inv_Set:
  assumes "sq_inv s" "sqLiteStore_Set s now kind key v = Inr (r, s')"
  shows "sq_inv s'"
  using assms
  by (auto simp: sqLiteStore_Set_def split: if_splits sum.splits option.splits dest: sq_inv_publish)

lemma sq_inv_SetFn:
  assumes "sq_inv s" "sqLiteStore_SetFn s now kind key fn = Inr (r, s')"
  shows "sq_inv s'"
  using assms
  by (auto simp: sqLiteStore_SetFn_def split: if_splits sum.splits option.splits dest: sq_inv_publish)

lemma sq_inv_SetAll:
  assumes "sq_inv s" "sqLiteStore_SetAll s now kind values = Inr (r, s')"
  shows "sq_inv s'"
  using assms
  by (auto simp: sqLiteStore_SetAll_def Let_def split: if_splits sum.splits option.splits prod.splits dest: sq_inv_publish_all)

lemma sq_inv_Delete:
  assumes "sq_inv s" "sqLiteStore_Delete zero s kind key = Inr (r, s')"
  shows "sq_inv s'"
  using assms
  by (auto simp: sqLiteStore_Delete_def split: if_splits sum.splits option.splits dest: sq_inv_publish)

lemma sq_inv_replay:
  assumes "sq_inv s" "sqLiteStore_replay s t = Inr s'"
  shows "sq_inv s'"
proof (cases "sqLiteStore_List s (p_kind t) []")
  case (Inl err)
  with assms show ?thesis by (simp add: sqLiteStore_replay_def)
next
  case (Inr m)
  with assms(2) obtain h where h: "send_all (sq_chans s) (ch (p_w t)) (map (mkEvent (p_kind t) EventTypeCreate) m) = Inr h"
    "s' = s\<lparr>sq_chans := h\<rparr>"
    by (auto simp: sqLiteStore_replay_def split: sum.splits)
  have sh: "send_all g a evs = Inr g' \<Longrightarrow> length g' = length g \<and> (\<forall>b < length g. chan_closed (g' ! b) = chan_closed (g ! b))"
    for g g' :: "'a chan list" and a evs
  proof (induction evs arbitrary: g)
    case Nil
    then show ?case by simp
  next
    case (Cons ev evs)
    from Cons.prems obtain g1 where g1: "heap_send g a ev = Inr g1" "send_all g1 a evs = Inr g'"
      by (auto split: sum.splits)
    from g1(1) have "length g1 = length g \<and> (\<forall>b < length g. chan_closed (g1 ! b) = chan_closed (g ! b))"
      by (auto simp: heap_send_def chan_send_def nth_list_update split: if_splits sum.splits)
    with Cons.IH[OF g1(2)] show ?case by simp
  qed
  from sh[OF h(1)] assms(1) show ?thesis
    unfolding h(2) by (auto simp: sq_inv_def all_subs_def regs_ok_def orphans_closed_def)
qed

lemma sq_inv_Watch:
  assumes "sq_inv q" "sqLiteStore_Watch q kind opts = Inr (Inr (a, c, task), q')"
  shows "sq_inv q' \<and> q_w c \<in> set (kind_subs q' kind)"
proof -
  from assms(2) have k: "kind \<noteq> []" and op: "\<not> sq_closed q"
    by (auto simp: sqLiteStore_Watch_def split: if_splits)
  with assms(1) obtain m where m: "subs q = Some m" by (cases "subs q") (auto simp: sq_inv_def)
  let ?cfg = "sq_apply_opts emptyCfg opts"
  let ?w = "\<lparr>ch = length (sq_chans q), eventTypes = EventTypes ?cfg\<rparr>"
  let ?new = "make_chan (nat (if BufferSize ?cfg \<le> 0 then DefaultWatchBufferSize else BufferSize ?cfg))"
  from assms(1) m have dk: "distinct (map fst m)"
    and r: "regs_ok (sq_chans q) (concat (map snd m))" and o: "orphans_closed (sq_chans q) (concat (map snd m))"
    and dbc: "\<not> db_closed q"
    using op by (simp_all add: sq_inv_def all_subs_def)
  have fresh: "?w \<notin> set (concat (map snd m))"
  proof
    assume "?w \<in> set (concat (map snd m))"
    with r have "ch ?w < length (sq_chans q)" unfolding regs_ok_def by blast
    then show False by simp
  qed
  have ks: "?w \<notin> set (kind_subs q kind)"
  proof (cases "map_of m kind")
    case None
    with m show ?thesis by (simp add: kind_subs_def)
  next
    case (Some ws)
    then have "(kind, ws) \<in> set m" by (rule map_of_SomeD)
    with fresh m Some show ?thesis by (force simp: kind_subs_def)
  qed
  from sqLiteStore_Watch_effect[OF k op m, of opts] assms(2) ks
  have q': "q' = q\<lparr>sq_chans := sq_chans q @ [?new], subs := Some (AList.update kind (kind_subs q kind @ [?w]) m)\<rparr>"
    and c: "c = \<lparr>q_kind = kind, q_w = ?w\<rparr>"
    by (simp_all add: Let_def)
  have reg: "q_w c \<in> set (kind_subs q' kind)"
    unfolding q' c by (simp add: kind_subs_def update_conv')
  show ?thesis
  proof (cases "map_of m kind")
    case None
    then have ab: "kind \<notin> fst ` set m" by (simp add: map_of_eq_None_iff)
    from None m have e: "kind_subs q kind = []" by (simp add: kind_subs_def)
    have u: "AList.update kind (kind_subs q kind @ [?w]) m = m @ [(kind, [?w])]"
      using ab e by (simp add: update_absent)
    have "regs_ok (sq_chans q @ [?new]) (concat (map snd m) @ ?w # [])"
      using regs_ok_insert[of "sq_chans q" "concat (map snd m)" "[]" ?new ?w] r by (simp add: make_chan_def)
    moreover have "orphans_closed (sq_chans q @ [?new]) (concat (map snd m) @ ?w # [])"
      using orphans_closed_insert[of "sq_chans q" "concat (map snd m)" "[]" ?w ?new] o by simp
    ultimately have "sq_inv q'"
      unfolding q' u using dk ab op dbc by (simp add: sq_inv_def all_subs_def)
    with reg show ?thesis by simp
  next
    case (Some ws)
    from alist_split[OF Some] obtain A B where AB: "m = A @ (kind, ws) # B" "kind \<notin> fst ` set A" by blast
    from Some m have e: "kind_subs q kind = ws" by (simp add: kind_subs_def)
    have u: "AList.update kind (kind_subs q kind @ [?w]) m = A @ (kind, ws @ [?w]) # B"
      using AB e by (simp add: update_split)
    let ?X = "concat (map snd A) @ ws" and ?Y = "concat (map snd B)"
    have cm: "concat (map snd m) = ?X @ ?Y" using AB by simp
    have "regs_ok (sq_chans q @ [?new]) (?X @ ?w # ?Y)"
      using regs_ok_insert[of "sq_chans q" ?X ?Y ?new ?w] r cm by (simp add: make_chan_def)
    moreover have "orphans_closed (sq_chans q @ [?new]) (?X @ ?w # ?Y)"
      using orphans_closed_insert[of "sq_chans q" ?X ?Y ?w ?new] o cm by simp
    ultimately have "sq_inv q'"
      unfolding q' u using dk AB op dbc by (simp add: sq_inv_def all_subs_def)
    with reg show ?thesis by simp
  qed
qed


subsection \<open>The example stores are reached\<close>

lemma ex_mem_watched_reached:
  "memStore_Watch (NewMemStore (=) noOptions) ''users'' [] =
     Inr (Inr (0, \<lparr>c_kind = ''users'', c_id = 1, c_doneCh = 0\<rparr>, None), ex_mem_watched)"
  by (simp add: memStore_Watch_def NewMemStore_def noOptions_def ex_mem_watched_def emptyCfg_def
      DefaultWatchBufferSize_def mem_eval)

lemma ex_sq_watched_reached:
  "sqLiteStore_Watch (New idCodec []) ''users'' [] =
     Inr (Inr (0, \<lparr>q_kind = ''users'', q_w = \<lparr>ch = 0, eventTypes = None\<rparr>\<rparr>, None), ex_sq_watched)"
  by (simp add: sqLiteStore_Watch_def New_def ex_sq_watched_def ex_sq_def emptyCfg_def
      DefaultWatchBufferSize_def sq_eval)

lemma ex_mem_closed_reached: "memStore_Close ex_mem = Inr ex_mem_closed"
  by (simp add: memStore_Close_def ex_mem_closed_def ex_mem_def ex_mem_watched_def heap_close_def chan_close_def)

lemma ex_sq_closed_reached: "sqLiteStore_Close ex_sq = Inr ex_sq_closed"
  by (simp add: sqLiteStore_Close_def ex_sq_closed_def ex_sq_def heap_close_def chan_close_def)

subsection \<open>The replay goroutine of the in-memory engine on a closed channel\<close>

text \<open>
  \<open>Close\<close> closes the delivery channel and leaves \<open>doneCh\<close> open, and \<open>cancel\<close> closes
  both. A replay goroutine that still has an entry to send when it runs next finds the
  send ready, because the channel is closed: after \<open>Close\<close> it sends and panics, and
  after \<open>cancel\<close> it panics or returns according to the choice that \<open>select\<close> makes.
  This fault is a send, not the close of a closed channel.
\<close>

lemma replay_on_closed_store:
  "(case memStore_Watch ex_mem ''users'' [Some WithInitialReplay] of
      Inr (Inr (a, c, Some task), s1) \<Rightarrow>
        (case memStore_Close s1 of
           Inr s2 \<Rightarrow> memStore_replay pick s2 task = Inl SendOnClosedChannel
         | Inl f \<Rightarrow> False)
    | _ \<Rightarrow> False)"
  by (simp add: memStore_Watch_def memStore_Close_def memStore_replay_def ex_mem_def ex_mem_watched_def
      emptyCfg_def WithInitialReplay_def DefaultWatchBufferSize_def sendInitial_def mkEvent_def
      heap_close_def chan_close_def mem_eval)

lemma replay_on_cancelled_watch:
  "(case memStore_Watch ex_mem ''users'' [Some WithInitialReplay] of
      Inr (Inr (a, c, Some task), s1) \<Rightarrow>
        (case memStore_cancel c s1 of
           Inr s2 \<Rightarrow> memStore_replay False s2 task = Inl SendOnClosedChannel \<and>
                     memStore_replay True s2 task = Inr (s2, Cancelled)
         | Inl f \<Rightarrow> False)
    | _ \<Rightarrow> False)"
  by (simp add: memStore_Watch_def memStore_cancel_def memStore_replay_def ex_mem_def ex_mem_watched_def
      emptyCfg_def WithInitialReplay_def DefaultWatchBufferSize_def sendInitial_def mkEvent_def
      heap_close_def chan_close_def done_close_def mem_eval)

end
